theory Spec2Isabelle
  imports Main
begin


section \<open>The automaton graph: states in an arena\<close>

text \<open>
  The Python objects of class \<^verbatim>\<open>State\<close> are compared by identity and mutated in
  place.  They live here in an arena, a list of state values; a reference to a state
  is its index, and \<^verbatim>\<open>State()\<close> allocates at the end of the arena.

  A key of the dictionary \<^verbatim>\<open>transitions\<close> is a one-character string or
  \<^verbatim>\<open>None\<close> (the epsilon key): a \<open>char option\<close>.  Characters are the code
  points below 256.
\<close>

type_synonym state_ref = nat

record State =
  name :: "string option"
  transitions :: "char option \<rightharpoonup> state_ref list"
  is_final :: bool

type_synonym heap = "State list"

text \<open>\<^verbatim>\<open>State()\<close>: the constructor with \<^verbatim>\<open>name=None\<close>, no transition, not final.\<close>

definition new_State :: "heap \<Rightarrow> state_ref \<times> heap" where
  "new_State h =
     (length h, h @ [\<lparr>name = None, transitions = Map.empty, is_final = False\<rparr>])"

text \<open>\<^verbatim>\<open>self.add_transition(symbol, state)\<close>: append to the list under the key, or
  start a new list.\<close>

definition add_transition :: "state_ref \<Rightarrow> char option \<Rightarrow> state_ref \<Rightarrow> heap \<Rightarrow> heap" where
  "add_transition self symbol state h =
     (let st = h ! self in
      h[self := st\<lparr>transitions :=
          (case transitions st symbol of
             Some l \<Rightarrow> (transitions st)(symbol \<mapsto> l @ [state])
           | None \<Rightarrow> (transitions st)(symbol \<mapsto> [state]))\<rparr>])"

record NFAFragment =
  start :: state_ref
  end' :: state_ref

definition build_fragment_for_symbol :: "char \<Rightarrow> heap \<Rightarrow> NFAFragment \<times> heap" where
  "build_fragment_for_symbol symbol h =
     (let (start, h1) = new_State h;
          (end, h2) = new_State h1;
          h3 = add_transition start (Some symbol) end h2
      in (\<lparr>start = start, end' = end\<rparr>, h3))"

definition apply_star_to_fragment :: "NFAFragment \<Rightarrow> heap \<Rightarrow> NFAFragment \<times> heap" where
  "apply_star_to_fragment fragment h =
     (let (new_start, h1) = new_State h;
          (new_end, h2) = new_State h1;
          h3 = add_transition new_start None (start fragment) h2;
          h4 = add_transition new_start None new_end h3;
          h5 = add_transition (end' fragment) None (start fragment) h4;
          h6 = add_transition (end' fragment) None new_end h5
      in (\<lparr>start = new_start, end' = new_end\<rparr>, h6))"

definition apply_plus_to_fragment :: "NFAFragment \<Rightarrow> heap \<Rightarrow> NFAFragment \<times> heap" where
  "apply_plus_to_fragment fragment h =
     (let (new_end, h1) = new_State h;
          h2 = add_transition (end' fragment) None (start fragment) h1;
          h3 = add_transition (end' fragment) None new_end h2
      in (\<lparr>start = start fragment, end' = new_end\<rparr>, h3))"

section \<open>The pattern compiler\<close>

text \<open>
  \<^verbatim>\<open>str.isalnum\<close> on a single character, for the code points below 256: the ASCII
  digits and letters, and the letters and numeric characters of the Latin-1 block.
\<close>

definition isalnum :: "char \<Rightarrow> bool" where
  "isalnum c =
     (let n = (of_char c :: nat) in
        (48 \<le> n \<and> n \<le> 57) \<or> (65 \<le> n \<and> n \<le> 90) \<or> (97 \<le> n \<and> n \<le> 122)
      \<or> n = 170 \<or> (178 \<le> n \<and> n \<le> 179) \<or> n = 181 \<or> (185 \<le> n \<and> n \<le> 186)
      \<or> (188 \<le> n \<and> n \<le> 190) \<or> (192 \<le> n \<and> n \<le> 214) \<or> (216 \<le> n \<and> n \<le> 246)
      \<or> (248 \<le> n \<and> n \<le> 255))"

text \<open>
  Both failures of the compiler are a Python \<^verbatim>\<open>ValueError\<close>; they differ in the
  message, which quotes the offending character.  The first constructor is the message
  about a pattern that starts with a repetition operator, the second the message about
  an unsupported symbol.
\<close>

datatype error =
    ValueError_invalid_pattern char
  | ValueError_unsupported_symbol char

text \<open>
  The loop of \<^verbatim>\<open>_build_nfa\<close>.  The cursor \<^verbatim>\<open>i\<close> is the unread rest
  \<^verbatim>\<open>pattern[i:]\<close>; \<^verbatim>\<open>base_start\<close> and \<^verbatim>\<open>base_end\<close> are \<^verbatim>\<open>None\<close> together or
  set together, so they are one optional pair.
\<close>

function build_loop ::
  "string \<Rightarrow> (state_ref \<times> state_ref) option \<Rightarrow> heap
     \<Rightarrow> error + ((state_ref \<times> state_ref) option \<times> heap)" where
  "build_loop [] base h = Inr (base, h)"
| "build_loop (char # rest) base h =
     (if char = CHR ''*'' \<or> char = CHR ''+'' then Inl (ValueError_invalid_pattern char)
      else if isalnum char \<or> char = CHR ''.'' then
        (let rep = (case rest of
                      [] \<Rightarrow> None
                    | r # _ \<Rightarrow> if r = CHR ''*'' \<or> r = CHR ''+'' then Some r else None);
             rest' = (if rep = None then rest else tl rest);
             (fragment, h1) = build_fragment_for_symbol char h;
             (fragment, h2) =
               (if rep = Some CHR ''*'' then apply_star_to_fragment fragment h1
                else if rep = Some CHR ''+'' then apply_plus_to_fragment fragment h1
                else (fragment, h1))
         in case base of
              None \<Rightarrow> build_loop rest' (Some (start fragment, end' fragment)) h2
            | Some (base_start, base_end) \<Rightarrow>
                build_loop rest' (Some (base_start, end' fragment))
                  (add_transition base_end None (start fragment) h2))
      else Inl (ValueError_unsupported_symbol char))"
  by pat_completeness auto
termination
  by (relation "measure (\<lambda>(p, base, h). length p)") (auto split: list.splits if_splits)

text \<open>
  A compiled automaton: the start state and the arena that holds the state graph.
\<close>

record RegexFSM =
  start_state :: state_ref
  states :: heap

definition build_nfa :: "string \<Rightarrow> error + RegexFSM" where
  "build_nfa pattern =
     (case build_loop pattern None [] of
        Inl e \<Rightarrow> Inl e
      | Inr (base, h) \<Rightarrow>
          (let (base_start, base_end, h1) =
                 (case base of
                    None \<Rightarrow> (let (s, h') = new_State h in (s, s, h'))
                  | Some (s, e) \<Rightarrow> (s, e, h));
               h2 = h1[base_end := (h1 ! base_end)\<lparr>is_final := True\<rparr>]
           in Inr \<lparr>start_state = base_start, states = h2\<rparr>))"

section \<open>The matcher\<close>

text \<open>
  A Python set of states is a list of references without repetition; the order of the
  list is the order in which the set is iterated.  \<^verbatim>\<open>s.add(x)\<close> is \<^const>\<open>List.insert\<close>
  and \<^verbatim>\<open>s.update(xs)\<close> is \<^const>\<open>List.union\<close>.

  A reference read from the arena is the index of an allocated state; the lookup gives
  no transition for an index outside the arena, which makes the closure a total
  function on every arena.
\<close>

definition transitions_of :: "heap \<Rightarrow> state_ref \<Rightarrow> char option \<Rightarrow> state_ref list option" where
  "transitions_of h s key = (if s < length h then transitions (h ! s) key else None)"

text \<open>The inner \<^verbatim>\<open>for nxt in state.transitions[None]\<close> of the closure.\<close>

fun push_unvisited ::
  "state_ref list \<Rightarrow> state_ref list \<times> state_ref list \<Rightarrow> state_ref list \<times> state_ref list" where
  "push_unvisited [] (stack, closure) = (stack, closure)"
| "push_unvisited (nxt # nxts) (stack, closure) =
     (if nxt \<notin> set closure
      then push_unvisited nxts (nxt # stack, List.insert nxt closure)
      else push_unvisited nxts (stack, closure))"

text \<open>
  The targets of all epsilon transitions of the arena: the loop below only ever adds
  these to the closure, which bounds the number of its rounds.
\<close>

definition eps_targets :: "heap \<Rightarrow> state_ref set" where
  "eps_targets h =
     (\<Union>s \<in> {..<length h}. case transitions (h ! s) None of None \<Rightarrow> {} | Some l \<Rightarrow> set l)"

text \<open>
  The \<^verbatim>\<open>while stack\<close> loop of \<^verbatim>\<open>epsilon_closure\<close>; the head of the list is the top
  of the stack.  The graph may have epsilon cycles: the loop ends because every round
  either visits a new state or shortens the stack.
\<close>

function epsilon_loop :: "heap \<Rightarrow> state_ref list \<Rightarrow> state_ref list \<Rightarrow> state_ref list" where
  "epsilon_loop h [] closure = closure"
| "epsilon_loop h (state # stack) closure =
     (case transitions_of h state None of
        None \<Rightarrow> epsilon_loop h stack closure
      | Some nxts \<Rightarrow>
          (let (stack', closure') = push_unvisited nxts (stack, closure)
           in epsilon_loop h stack' closure'))"
  by pat_completeness auto
termination
proof (relation "inv_image (less_than <*lex*> less_than)
         (\<lambda>(h, stack, closure). (card (eps_targets h - set closure), length stack))",
       goal_cases)
  case 1
  show ?case by (intro wf_inv_image wf_lex_prod wf_less_than)
next
  case (2 h state stack closure)
  show ?case by simp
next
  case (3 h state stack closure nxts x stack' closure')
  then have p: "push_unvisited nxts (stack, closure) = (stack', closure')" by simp
  have grows: "set c' = set c \<union> set ns"
    if "push_unvisited ns (st, c) = (st', c')" for ns st c st' c'
    using that by (induction ns arbitrary: st c) (auto split: if_splits)
  have same: "st' = st \<and> c' = c"
    if "push_unvisited ns (st, c) = (st', c')" "set ns \<subseteq> set c" for ns st c st' c'
    using that by (induction ns arbitrary: st c) (auto split: if_splits)
  show ?case
  proof (cases "set nxts \<subseteq> set closure")
    case True
    with same [OF p] show ?thesis by simp
  next
    case False
    have "finite (eps_targets h)"
      by (auto simp: eps_targets_def split: option.splits)
    moreover have "set nxts \<subseteq> eps_targets h"
      using 3(1) by (auto simp: transitions_of_def eps_targets_def split: if_splits)
    then have "eps_targets h - set closure' \<subset> eps_targets h - set closure"
      using False grows [OF p] by auto
    ultimately have "card (eps_targets h - set closure') < card (eps_targets h - set closure)"
      by (intro psubset_card_mono) simp_all
    then show ?thesis by simp
  qed
qed

text \<open>
  \<^verbatim>\<open>epsilon_closure(self, states)\<close>.  \<^verbatim>\<open>stack.pop()\<close> takes the last element of
  \<^verbatim>\<open>list(states)\<close>, so the stack starts reversed.
\<close>

definition epsilon_closure :: "heap \<Rightarrow> state_ref list \<Rightarrow> state_ref list" where
  "epsilon_closure h sts = epsilon_loop h (rev sts) (remdups sts)"

text \<open>
  The body of \<^verbatim>\<open>for char in input_str\<close> up to the closure: the wildcard key
  \<^verbatim>\<open>'.'\<close> is looked up beside the key of the character itself.
\<close>

definition next_states :: "heap \<Rightarrow> state_ref list \<Rightarrow> char \<Rightarrow> state_ref list" where
  "next_states h current_states char =
     fold (\<lambda>state ns.
             (let ns1 = (case transitions_of h state (Some char) of
                           Some l \<Rightarrow> List.union l ns | None \<Rightarrow> ns)
              in case transitions_of h state (Some CHR ''.'') of
                   Some l \<Rightarrow> List.union l ns1 | None \<Rightarrow> ns1))
          current_states []"

fun check_loop :: "heap \<Rightarrow> state_ref list \<Rightarrow> string \<Rightarrow> state_ref list" where
  "check_loop h current_states [] = current_states"
| "check_loop h current_states (char # rest) =
     check_loop h (epsilon_closure h (next_states h current_states char)) rest"

definition check_string :: "RegexFSM \<Rightarrow> string \<Rightarrow> bool" where
  "check_string self input_str =
     (let current_states = epsilon_closure (states self) [start_state self];
          current_states = check_loop (states self) current_states input_str
      in list_ex (\<lambda>state. is_final (states self ! state)) current_states)"

section \<open>The matcher as a store transformer\<close>

text \<open>
  The same two methods once more, with the store threaded through them.  The store is
  the automaton: the start state and the arena with every transition table and every
  final flag.  Each read of a field (\<^verbatim>\<open>self.start_state\<close>, \<^verbatim>\<open>state.transitions\<close>,
  \<^verbatim>\<open>state.is_final\<close>) is a step that takes the store and hands it on; the working sets
  \<^verbatim>\<open>stack\<close>, \<^verbatim>\<open>closure\<close>, \<^verbatim>\<open>current_states\<close> and \<^verbatim>\<open>next_states\<close> are local values
  of the call.  A method that assigned to a field of a state would hand on a different
  store, as \<open>add_transition\<close> does during compilation.
\<close>

definition get_start_state :: "RegexFSM \<Rightarrow> state_ref \<times> RegexFSM" where
  "get_start_state \<sigma> = (start_state \<sigma>, \<sigma>)"

definition get_transitions ::
  "state_ref \<Rightarrow> char option \<Rightarrow> RegexFSM \<Rightarrow> state_ref list option \<times> RegexFSM" where
  "get_transitions state key \<sigma> = (transitions_of (states \<sigma>) state key, \<sigma>)"

definition get_is_final :: "state_ref \<Rightarrow> RegexFSM \<Rightarrow> bool \<times> RegexFSM" where
  "get_is_final state \<sigma> = (is_final (states \<sigma> ! state), \<sigma>)"

function epsilon_loop_st ::
  "state_ref list \<Rightarrow> state_ref list \<Rightarrow> RegexFSM \<Rightarrow> state_ref list \<times> RegexFSM" where
  "epsilon_loop_st [] closure \<sigma> = (closure, \<sigma>)"
| "epsilon_loop_st (state # stack) closure \<sigma> =
     (let (ts, \<sigma>1) = get_transitions state None \<sigma> in
      case ts of
        None \<Rightarrow> epsilon_loop_st stack closure \<sigma>1
      | Some nxts \<Rightarrow>
          (let (stack', closure') = push_unvisited nxts (stack, closure)
           in epsilon_loop_st stack' closure' \<sigma>1))"
  by pat_completeness auto
termination
proof (relation "inv_image (less_than <*lex*> less_than)
         (\<lambda>(stack, closure, \<sigma>). (card (eps_targets (states \<sigma>) - set closure), length stack))",
       goal_cases)
  case 1
  show ?case by (intro wf_inv_image wf_lex_prod wf_less_than)
next
  case (2 state stack closure \<sigma> x ts \<sigma>1)
  then show ?case by (simp add: get_transitions_def)
next
  case (3 state stack closure \<sigma> x ts \<sigma>1 nxts y stack' closure')
  then have s1: "\<sigma>1 = \<sigma>" and ts: "transitions_of (states \<sigma>) state None = Some nxts"
    and p: "push_unvisited nxts (stack, closure) = (stack', closure')"
    by (simp_all add: get_transitions_def)
  have grows: "set c' = set c \<union> set ns"
    if "push_unvisited ns (st, c) = (st', c')" for ns st c st' c'
    using that by (induction ns arbitrary: st c) (auto split: if_splits)
  have same: "st' = st \<and> c' = c"
    if "push_unvisited ns (st, c) = (st', c')" "set ns \<subseteq> set c" for ns st c st' c'
    using that by (induction ns arbitrary: st c) (auto split: if_splits)
  let ?T = "eps_targets (states \<sigma>)"
  show ?case
  proof (cases "set nxts \<subseteq> set closure")
    case True
    with same [OF p] s1 show ?thesis by simp
  next
    case False
    have "finite ?T"
      by (auto simp: eps_targets_def split: option.splits)
    moreover have "set nxts \<subseteq> ?T"
      using ts by (auto simp: transitions_of_def eps_targets_def split: if_splits)
    then have "?T - set closure' \<subset> ?T - set closure"
      using False grows [OF p] by auto
    ultimately have "card (?T - set closure') < card (?T - set closure)"
      by (intro psubset_card_mono) simp_all
    then show ?thesis using s1 by simp
  qed
qed

definition epsilon_closure_st :: "state_ref list \<Rightarrow> RegexFSM \<Rightarrow> state_ref list \<times> RegexFSM" where
  "epsilon_closure_st sts \<sigma> = epsilon_loop_st (rev sts) (remdups sts) \<sigma>"

fun next_states_st ::
  "state_ref list \<Rightarrow> char \<Rightarrow> state_ref list \<Rightarrow> RegexFSM \<Rightarrow> state_ref list \<times> RegexFSM" where
  "next_states_st [] char ns \<sigma> = (ns, \<sigma>)"
| "next_states_st (state # rest) char ns \<sigma> =
     (let (t1, \<sigma>1) = get_transitions state (Some char) \<sigma>;
          ns1 = (case t1 of Some l \<Rightarrow> List.union l ns | None \<Rightarrow> ns);
          (t2, \<sigma>2) = get_transitions state (Some CHR ''.'') \<sigma>1;
          ns2 = (case t2 of Some l \<Rightarrow> List.union l ns1 | None \<Rightarrow> ns1)
      in next_states_st rest char ns2 \<sigma>2)"

fun check_loop_st :: "state_ref list \<Rightarrow> string \<Rightarrow> RegexFSM \<Rightarrow> state_ref list \<times> RegexFSM" where
  "check_loop_st current_states [] \<sigma> = (current_states, \<sigma>)"
| "check_loop_st current_states (char # rest) \<sigma> =
     (let (ns, \<sigma>1) = next_states_st current_states char [] \<sigma>;
          (current_states, \<sigma>2) = epsilon_closure_st ns \<sigma>1
      in check_loop_st current_states rest \<sigma>2)"

fun any_final_st :: "state_ref list \<Rightarrow> RegexFSM \<Rightarrow> bool \<times> RegexFSM" where
  "any_final_st [] \<sigma> = (False, \<sigma>)"
| "any_final_st (state # rest) \<sigma> =
     (let (f, \<sigma>1) = get_is_final state \<sigma>
      in if f then (True, \<sigma>1) else any_final_st rest \<sigma>1)"

definition check_string_st :: "string \<Rightarrow> RegexFSM \<Rightarrow> bool \<times> RegexFSM" where
  "check_string_st input_str \<sigma> =
     (let (s, \<sigma>0) = get_start_state \<sigma>;
          (current_states, \<sigma>1) = epsilon_closure_st [s] \<sigma>0;
          (current_states, \<sigma>2) = check_loop_st current_states input_str \<sigma>1
      in any_final_st current_states \<sigma>2)"


section \<open>Reachability and acceptance in an arena\<close>

text \<open>
  The graph that the matcher walks: the epsilon successors of a state, the successors
  on an input character (by the key of the character or by the wildcard key), and the
  strings accepted from a state along some path to a final state.
\<close>

definition eps_succ :: "heap \<Rightarrow> state_ref \<Rightarrow> state_ref set" where
  "eps_succ h s = (case transitions_of h s None of None \<Rightarrow> {} | Some l \<Rightarrow> set l)"

definition eps_rel :: "heap \<Rightarrow> (state_ref \<times> state_ref) set" where
  "eps_rel h = {(s, t). t \<in> eps_succ h s}"

definition sym_succ :: "heap \<Rightarrow> state_ref \<Rightarrow> char \<Rightarrow> state_ref set" where
  "sym_succ h s x =
     (case transitions_of h s (Some x) of None \<Rightarrow> {} | Some l \<Rightarrow> set l) \<union>
     (case transitions_of h s (Some CHR ''.'') of None \<Rightarrow> {} | Some l \<Rightarrow> set l)"

inductive accepts_from :: "heap \<Rightarrow> state_ref \<Rightarrow> string \<Rightarrow> bool" for h where
  accepts_final: "is_final (h ! s) \<Longrightarrow> accepts_from h s []"
| accepts_eps: "t \<in> eps_succ h s \<Longrightarrow> accepts_from h t w \<Longrightarrow> accepts_from h s w"
| accepts_sym: "u \<in> sym_succ h s x \<Longrightarrow> accepts_from h u w \<Longrightarrow> accepts_from h s (x # w)"


section \<open>The items of a pattern and the states of a fragment\<close>

text \<open>
  What the loop of the compiler reads off the pattern: an atom with its optional
  repetition operator.  \<open>parse\<close> follows the control flow of \<open>build_loop\<close> and
  \<open>add_item\<close> is the body of the loop for one item.
\<close>

type_synonym item = "char \<times> char option"

function parse :: "string \<Rightarrow> error + item list" where
  "parse [] = Inr []"
| "parse (char # rest) =
     (if char = CHR ''*'' \<or> char = CHR ''+'' then Inl (ValueError_invalid_pattern char)
      else if isalnum char \<or> char = CHR ''.'' then
        (let rep = (case rest of
                      [] \<Rightarrow> None
                    | r # _ \<Rightarrow> if r = CHR ''*'' \<or> r = CHR ''+'' then Some r else None);
             rest' = (if rep = None then rest else tl rest)
         in case parse rest' of
              Inl e \<Rightarrow> Inl e
            | Inr items \<Rightarrow> Inr ((char, rep) # items))
      else Inl (ValueError_unsupported_symbol char))"
  by pat_completeness auto
termination
  by (relation "measure length") (auto split: list.splits if_splits)

definition add_item ::
  "item \<Rightarrow> (state_ref \<times> state_ref) option \<times> heap \<Rightarrow> (state_ref \<times> state_ref) option \<times> heap" where
  "add_item it bh =
     (case (it, bh) of ((char, rep), (base, h)) \<Rightarrow>
        (let (fragment, h1) = build_fragment_for_symbol char h;
             (fragment, h2) =
               (if rep = Some CHR ''*'' then apply_star_to_fragment fragment h1
                else if rep = Some CHR ''+'' then apply_plus_to_fragment fragment h1
                else (fragment, h1))
         in case base of
              None \<Rightarrow> (Some (start fragment, end' fragment), h2)
            | Some (base_start, base_end) \<Rightarrow>
                (Some (base_start, end' fragment),
                 add_transition base_end None (start fragment) h2)))"


text \<open>
  The states that one item adds to an arena of length \<open>off\<close>, the state through which
  its fragment is entered and the state through which it is left.
\<close>

definition plain_state :: "(char option \<rightharpoonup> state_ref list) \<Rightarrow> State" where
  "plain_state t = \<lparr>name = None, transitions = t, is_final = False\<rparr>"

fun width :: "item \<Rightarrow> nat" where
  "width (c, rep) = (if rep = Some CHR ''*'' then 4 else if rep = Some CHR ''+'' then 3 else 2)"

fun entry :: "nat \<Rightarrow> item \<Rightarrow> state_ref" where
  "entry off (c, rep) = (if rep = Some CHR ''*'' then off + 2 else off)"

fun exit :: "nat \<Rightarrow> item \<Rightarrow> state_ref" where
  "exit off (c, rep) =
     (if rep = Some CHR ''*'' then off + 3 else if rep = Some CHR ''+'' then off + 2 else off + 1)"

fun frag_states :: "nat \<Rightarrow> item \<Rightarrow> State list" where
  "frag_states off (c, rep) =
     (if rep = Some CHR ''*'' then
        [plain_state [Some c \<mapsto> [off + 1]], plain_state [None \<mapsto> [off, off + 3]],
         plain_state [None \<mapsto> [off, off + 3]], plain_state Map.empty]
      else if rep = Some CHR ''+'' then
        [plain_state [Some c \<mapsto> [off + 1]], plain_state [None \<mapsto> [off, off + 2]],
         plain_state Map.empty]
      else
        [plain_state [Some c \<mapsto> [off + 1]], plain_state Map.empty])"

definition link :: "State \<Rightarrow> state_ref \<Rightarrow> State" where
  "link st n = st\<lparr>transitions :=
          (case transitions st None of
             Some l \<Rightarrow> (transitions st)(None \<mapsto> l @ [n])
           | None \<Rightarrow> (transitions st)(None \<mapsto> [n]))\<rparr>"


text \<open>
  The shape of a compiled arena: from offset \<open>off\<close> on it holds the states of the items
  in order, the exit of each item linked by one epsilon transition to the entry of the
  next; the exit of the last item has no transition and carries the flag \<open>fin\<close>.
\<close>

fun chain :: "heap \<Rightarrow> nat \<Rightarrow> item list \<Rightarrow> bool \<Rightarrow> bool" where
  "chain H off [] fin = True"
| "chain H off (it # rest) fin =
     (off + width it \<le> length H \<and>
      (\<forall>j < width it - 1. H ! (off + j) = frag_states off it ! j) \<and>
      H ! exit off it =
        (case rest of
           [] \<Rightarrow> \<lparr>name = None, transitions = Map.empty, is_final = fin\<rparr>
         | it' # _ \<Rightarrow> plain_state [None \<mapsto> [entry (off + width it) it']]) \<and>
      chain H (off + width it) rest fin)"


section \<open>The language of a pattern\<close>

text \<open>
  The strings that a list of items denotes, by recursion on the items: an atom matches
  one character (the wildcard any character), a starred atom any run of matching
  characters, a plus atom a run of at least one.
\<close>

definition match_sym :: "char \<Rightarrow> char \<Rightarrow> bool" where
  "match_sym c x = (x = c \<or> c = CHR ''.'')"

fun star_then :: "char \<Rightarrow> (string \<Rightarrow> bool) \<Rightarrow> string \<Rightarrow> bool" where
  "star_then c Q [] = Q []"
| "star_then c Q (x # w) = (Q (x # w) \<or> (match_sym c x \<and> star_then c Q w))"

primrec lang :: "item list \<Rightarrow> string \<Rightarrow> bool" where
  "lang [] = (\<lambda>w. w = [])"
| "lang (it # rest) =
     (\<lambda>w. if snd it = Some CHR ''*'' then star_then (fst it) (lang rest) w
          else if snd it = Some CHR ''+'' then
            (case w of [] \<Rightarrow> False
             | x # w' \<Rightarrow> match_sym (fst it) x \<and> star_then (fst it) (lang rest) w')
          else
            (case w of [] \<Rightarrow> False | x # w' \<Rightarrow> match_sym (fst it) x \<and> lang rest w'))"


section \<open>Offending positions of a pattern\<close>

text \<open>
  A repetition operator is misplaced when it stands at the start of the pattern or
  directly after another operator; a character is unsupported when it is neither an
  atom nor an operator.  The first offending position is the leftmost position that is
  one or the other, and \<open>error_at\<close> is the error raised for the character there.
\<close>

definition is_operator :: "char \<Rightarrow> bool" where
  "is_operator c = (c = CHR ''*'' \<or> c = CHR ''+'')"

definition is_atom :: "char \<Rightarrow> bool" where
  "is_atom c = (isalnum c \<or> c = CHR ''.'')"

definition bad_operator :: "string \<Rightarrow> nat \<Rightarrow> bool" where
  "bad_operator p i =
     (i < length p \<and> is_operator (p ! i) \<and> (i = 0 \<or> is_operator (p ! (i - 1))))"

definition bad_symbol :: "string \<Rightarrow> nat \<Rightarrow> bool" where
  "bad_symbol p i = (i < length p \<and> \<not> is_atom (p ! i) \<and> \<not> is_operator (p ! i))"

definition first_offending :: "string \<Rightarrow> nat \<Rightarrow> bool" where
  "first_offending p i =
     ((bad_operator p i \<or> bad_symbol p i) \<and>
      (\<forall>j<i. \<not> bad_operator p j \<and> \<not> bad_symbol p j))"

definition error_at :: "string \<Rightarrow> nat \<Rightarrow> error" where
  "error_at p i =
     (if is_operator (p ! i) then ValueError_invalid_pattern (p ! i)
      else ValueError_unsupported_symbol (p ! i))"


section \<open>Well-formed arenas\<close>





section \<open>The closure computes epsilon reachability\<close>

lemma push_unvisited_closure:
  "push_unvisited nxts (stack, closure) = (stack', closure') \<Longrightarrow>
     set closure' = set closure \<union> set nxts"
  by (induction nxts arbitrary: stack closure) (auto split: if_splits)

lemma push_unvisited_stack:
  "push_unvisited nxts (stack, closure) = (stack', closure') \<Longrightarrow>
     set stack' = set stack \<union> (set nxts - set closure)"
  by (induction nxts arbitrary: stack closure) (auto split: if_splits)

lemma closed_Image_rtrancl:
  assumes "\<forall>s\<in>A. r `` {s} \<subseteq> A"
  shows "r\<^sup>* `` A = A"
proof
  show "r\<^sup>* `` A \<subseteq> A"
  proof
    fix t assume "t \<in> r\<^sup>* `` A"
    then obtain s where "s \<in> A" "(s, t) \<in> r\<^sup>*" by auto
    from this(2) this(1) show "t \<in> A"
      by (induction rule: rtrancl_induct) (use assms in auto)
  qed
qed auto

lemma epsilon_loop_reach:
  "set stack \<subseteq> set closure \<Longrightarrow>
   \<forall>s\<in>set closure - set stack. eps_succ h s \<subseteq> set closure \<Longrightarrow>
   set (epsilon_loop h stack closure) = (eps_rel h)\<^sup>* `` set closure"
proof (induction h stack closure rule: epsilon_loop.induct)
  case (1 h closure)
  then have "\<forall>s\<in>set closure. eps_rel h `` {s} \<subseteq> set closure"
    by (auto simp: eps_rel_def)
  from closed_Image_rtrancl [OF this] show ?case by simp
next
  case (2 h state stack closure)
  show ?case
  proof (cases "transitions_of h state None")
    case None
    then have "eps_succ h state = {}" by (simp add: eps_succ_def)
    with 2(3,4) have "set stack \<subseteq> set closure"
      "\<forall>s\<in>set closure - set stack. eps_succ h s \<subseteq> set closure"
      by auto
    from 2(1) [OF None this] None show ?thesis by simp
  next
    case (Some nxts)
    obtain stack' closure' where p: "push_unvisited nxts (stack, closure) = (stack', closure')"
      by (cases "push_unvisited nxts (stack, closure)")
    note c = push_unvisited_closure [OF p] and s = push_unvisited_stack [OF p]
    have succ: "eps_succ h state = set nxts" using Some by (simp add: eps_succ_def)
    have inv1: "set stack' \<subseteq> set closure'" using 2(3) c s by auto
    have inv2: "\<forall>s\<in>set closure' - set stack'. eps_succ h s \<subseteq> set closure'"
    proof
      fix q assume q: "q \<in> set closure' - set stack'"
      show "eps_succ h q \<subseteq> set closure'"
      proof (cases "q = state")
        case True
        then show ?thesis using succ c by simp
      next
        case False
        with q c s have "q \<in> set closure - set (state # stack)" by auto
        with 2(4) have "eps_succ h q \<subseteq> set closure" by blast
        then show ?thesis using c by auto
      qed
    qed
    have "set (epsilon_loop h stack' closure') = (eps_rel h)\<^sup>* `` set closure'"
      using 2(2) [OF Some p [symmetric] refl inv1 inv2] .
    moreover have "(eps_rel h)\<^sup>* `` set closure' = (eps_rel h)\<^sup>* `` set closure"
    proof -
      have "state \<in> set closure" using 2(3) by simp
      then have "set nxts \<subseteq> (eps_rel h)\<^sup>* `` set closure"
        using succ by (auto simp: eps_rel_def)
      then have "(eps_rel h)\<^sup>* `` set nxts \<subseteq> (eps_rel h)\<^sup>* `` set closure"
        by (auto intro: rtrancl_trans)
      then show ?thesis unfolding c by auto
    qed
    ultimately show ?thesis using Some p by simp
  qed
qed

lemma epsilon_closure_reach:
  "set (epsilon_closure h S) = (eps_rel h)\<^sup>* `` set S"
  unfolding epsilon_closure_def by (subst epsilon_loop_reach) auto



section \<open>The matcher decides acceptance\<close>

lemma set_next_states_fold:
  "set (fold (\<lambda>state ns.
             (let ns1 = (case transitions_of h state (Some char) of
                           Some l \<Rightarrow> List.union l ns | None \<Rightarrow> ns)
              in case transitions_of h state (Some CHR ''.'') of
                   Some l \<Rightarrow> List.union l ns1 | None \<Rightarrow> ns1)) cur acc)
   = set acc \<union> (\<Union>s\<in>set cur. sym_succ h s char)"
  by (induction cur arbitrary: acc) (auto simp: sym_succ_def Let_def split: option.splits)

lemma set_next_states: "set (next_states h cur char) = (\<Union>s\<in>set cur. sym_succ h s char)"
  unfolding next_states_def by (simp add: set_next_states_fold)

lemma accepts_from_rtrancl:
  "(s, t) \<in> (eps_rel h)\<^sup>* \<Longrightarrow> accepts_from h t w \<Longrightarrow> accepts_from h s w"
  by (induction rule: converse_rtrancl_induct) (auto simp: eps_rel_def intro: accepts_eps)

lemma accepts_from_Nil:
  "accepts_from h s w \<Longrightarrow> w = [] \<Longrightarrow> \<exists>t. (s, t) \<in> (eps_rel h)\<^sup>* \<and> is_final (h ! t)"
proof (induction rule: accepts_from.induct)
  case (accepts_eps t s w)
  then obtain q where "(t, q) \<in> (eps_rel h)\<^sup>*" "is_final (h ! q)" by auto
  moreover have "(s, t) \<in> eps_rel h" using accepts_eps(1) by (simp add: eps_rel_def)
  ultimately show ?case by (meson converse_rtrancl_into_rtrancl)
qed auto

lemma accepts_from_Cons:
  "accepts_from h s w \<Longrightarrow> w = x # w' \<Longrightarrow>
     \<exists>t u. (s, t) \<in> (eps_rel h)\<^sup>* \<and> u \<in> sym_succ h t x \<and> accepts_from h u w'"
proof (induction rule: accepts_from.induct)
  case (accepts_eps t s w)
  then obtain q u where "(t, q) \<in> (eps_rel h)\<^sup>*" "u \<in> sym_succ h q x" "accepts_from h u w'"
    by auto
  moreover have "(s, t) \<in> eps_rel h" using accepts_eps(1) by (simp add: eps_rel_def)
  ultimately show ?case by (meson converse_rtrancl_into_rtrancl)
qed auto

lemma check_loop_accepts:
  "(\<exists>q\<in>set (check_loop h (epsilon_closure h S) w). is_final (h ! q))
     \<longleftrightarrow> (\<exists>s\<in>set S. accepts_from h s w)"
proof (induction w arbitrary: S)
  case Nil
  show ?case
    by (auto simp: epsilon_closure_reach dest: accepts_from_Nil
             intro: accepts_from_rtrancl accepts_final)
next
  case (Cons x w)
  have "(\<exists>q\<in>set (check_loop h (epsilon_closure h S) (x # w)). is_final (h ! q))
      \<longleftrightarrow> (\<exists>u\<in>set (next_states h (epsilon_closure h S) x). accepts_from h u w)"
    by (simp add: Cons.IH)
  also have "\<dots> \<longleftrightarrow> (\<exists>s\<in>set S. \<exists>t u. (s, t) \<in> (eps_rel h)\<^sup>* \<and> u \<in> sym_succ h t x
                          \<and> accepts_from h u w)"
    by (auto simp: set_next_states epsilon_closure_reach)
  also have "\<dots> \<longleftrightarrow> (\<exists>s\<in>set S. accepts_from h s (x # w))"
    by (meson accepts_from_Cons accepts_from_rtrancl accepts_sym)
  finally show ?case .
qed

lemma check_string_accepts:
  "check_string fsm w \<longleftrightarrow> accepts_from (states fsm) (start_state fsm) w"
  using check_loop_accepts [of "states fsm" "[start_state fsm]" w]
  by (simp add: check_string_def list_ex_iff)



section \<open>The compiler, item by item\<close>

lemma add_item_simp:
  "add_item (char, rep) (base, h) =
        (let (fragment, h1) = build_fragment_for_symbol char h;
             (fragment, h2) =
               (if rep = Some CHR ''*'' then apply_star_to_fragment fragment h1
                else if rep = Some CHR ''+'' then apply_plus_to_fragment fragment h1
                else (fragment, h1))
         in case base of
              None \<Rightarrow> (Some (start fragment, end' fragment), h2)
            | Some (base_start, base_end) \<Rightarrow>
                (Some (base_start, end' fragment),
                 add_transition base_end None (start fragment) h2))"
  by (simp add: add_item_def)

lemma build_loop_parse:
  "build_loop p base h =
     (case parse p of Inl e \<Rightarrow> Inl e | Inr items \<Rightarrow> Inr (fold add_item items (base, h)))"
proof (induction p base h rule: build_loop.induct)
  case (1 base h)
  show ?case by simp
next
  case (2 char rest base h)
  show ?case
  proof (cases "char = CHR ''*'' \<or> char = CHR ''+''")
    case True
    then show ?thesis by auto
  next
    case op: False
    show ?thesis
    proof (cases "isalnum char \<or> char = CHR ''.''")
      case False
      with op show ?thesis by auto
    next
      case True
      define rep where "rep = (case rest of
                      [] \<Rightarrow> None
                    | r # _ \<Rightarrow> if r = CHR ''*'' \<or> r = CHR ''+'' then Some r else None)"
      define rest' where "rest' = (if rep = None then rest else tl rest)"
      obtain f1 h1 where f1: "build_fragment_for_symbol char h = (f1, h1)"
        by (cases "build_fragment_for_symbol char h")
      obtain f2 h2 where f2: "(if rep = Some CHR ''*'' then apply_star_to_fragment f1 h1
                else if rep = Some CHR ''+'' then apply_plus_to_fragment f1 h1
                else (f1, h1)) = (f2, h2)"
        by (cases "(if rep = Some CHR ''*'' then apply_star_to_fragment f1 h1
                else if rep = Some CHR ''+'' then apply_plus_to_fragment f1 h1
                else (f1, h1))")
      show ?thesis
      proof (cases base)
        case None
        have "build_loop rest' (Some (start f2, end' f2)) h2 =
             (case parse rest' of Inl e \<Rightarrow> Inl e
              | Inr items \<Rightarrow> Inr (fold add_item items (Some (start f2, end' f2), h2)))"
          using 2(1) [OF op True rep_def rest'_def refl f1 [symmetric] refl f2 [symmetric] None]
          by simp
        then show ?thesis
          using op True None f1 f2
          by (simp add: rep_def [symmetric] rest'_def [symmetric] add_item_simp split: sum.splits)
      next
        case (Some b)
        obtain bs be where b: "b = (bs, be)" by (cases b)
        have "build_loop rest' (Some (bs, end' f2)) (add_transition be None (start f2) h2) =
             (case parse rest' of Inl e \<Rightarrow> Inl e
              | Inr items \<Rightarrow> Inr (fold add_item items
                   (Some (bs, end' f2), add_transition be None (start f2) h2)))"
          using 2(2) [OF op True rep_def rest'_def refl f1 [symmetric] refl f2 [symmetric] Some b [symmetric]]
          by simp
        then show ?thesis
          using op True Some b f1 f2
          by (simp add: rep_def [symmetric] rest'_def [symmetric] add_item_simp split: sum.splits)
      qed
    qed
  qed
qed


lemmas frag_defs = build_fragment_for_symbol_def apply_star_to_fragment_def
  apply_plus_to_fragment_def new_State_def add_transition_def Let_def plain_state_def

lemma add_item_None:
  "add_item it (None, h) =
     (Some (entry (length h) it, exit (length h) it), h @ frag_states (length h) it)"
  by (cases it) (simp add: add_item_simp frag_defs nth_append list_update_append eval_nat_numeral)

lemma add_item_Some:
  "be < length h \<Longrightarrow> add_item it (Some (bs, be), h) =
     (Some (bs, exit (length h) it),
      h[be := link (h ! be) (entry (length h) it)] @ frag_states (length h) it)"
  by (cases it)
     (simp add: add_item_simp frag_defs nth_append list_update_append link_def eval_nat_numeral
           cong: option.case_cong)


lemma length_frag_states [simp]: "length (frag_states off it) = width it"
  by (cases it) simp

lemma exit_width: "Suc (exit off it) = off + width it"
  by (cases it) simp

lemma width_ge2: "2 \<le> width it"
  by (cases it) simp

lemma frag_states_exit: "frag_states off it ! (width it - 1) = plain_state Map.empty"
  by (cases it) simp

lemma link_plain: "link (plain_state Map.empty) n = plain_state [None \<mapsto> [n]]"
  by (simp add: link_def plain_state_def)

lemma fold_add_item_chain:
  assumes "Suc be = length h" and "h ! be = plain_state Map.empty"
  shows "\<exists>be' h'. fold add_item items (Some (bs, be), h) = (Some (bs, be'), h')
           \<and> length h' = length h + sum_list (map width items)
           \<and> (\<forall>i<be. h' ! i = h ! i)
           \<and> Suc be' = length h'
           \<and> h' ! be' = plain_state Map.empty
           \<and> (case items of [] \<Rightarrow> h' = h
               | it # _ \<Rightarrow> h' ! be = plain_state [None \<mapsto> [entry (length h) it]])
           \<and> chain h' (length h) items False"
  using assms
proof (induction items arbitrary: h be)
  case Nil
  then show ?case by simp
next
  case (Cons it rest)
  define off where "off = length h"
  define e1 where "e1 = exit off it"
  define h1 where "h1 = h[be := link (h ! be) (entry off it)] @ frag_states off it"
  have be: "be < length h" using Cons.prems by simp
  have step: "add_item it (Some (bs, be), h) = (Some (bs, e1), h1)"
    using add_item_Some [OF be] by (simp add: e1_def h1_def off_def)
  have len1: "length h1 = off + width it" by (simp add: h1_def off_def)
  have e1: "Suc e1 = length h1" by (simp add: len1 e1_def exit_width)
  have e1': "e1 = off + (width it - 1)" using e1 len1 width_ge2 [of it] by simp
  have h1e1: "h1 ! e1 = plain_state Map.empty"
    unfolding e1' using frag_states_exit [of off it] by (simp add: h1_def off_def nth_append)
  from Cons.IH [OF e1 h1e1, of ] obtain be' h' where
    fold: "fold add_item rest (Some (bs, e1), h1) = (Some (bs, be'), h')"
    and len: "length h' = length h1 + sum_list (map width rest)"
    and frame: "\<forall>i<e1. h' ! i = h1 ! i"
    and be': "Suc be' = length h'"
    and bare: "h' ! be' = plain_state Map.empty"
    and nxt: "(case rest of [] \<Rightarrow> h' = h1
               | it' # _ \<Rightarrow> h' ! e1 = plain_state [None \<mapsto> [entry (length h1) it']])"
    and ch: "chain h' (length h1) rest False"
    by blast
  have be_e1: "be < e1" using be e1' off_def by simp
  have "fold add_item (it # rest) (Some (bs, be), h) = (Some (bs, be'), h')"
    using step fold by simp
  moreover have "length h' = length h + sum_list (map width (it # rest))"
    using len len1 off_def by simp
  moreover have "\<forall>i<be. h' ! i = h ! i"
  proof (intro allI impI)
    fix i assume i: "i < be"
    then have "h' ! i = h1 ! i" using frame be_e1 by simp
    also have "\<dots> = h ! i" using i be by (simp add: h1_def nth_append)
    finally show "h' ! i = h ! i" .
  qed
  moreover have "h' ! be = plain_state [None \<mapsto> [entry (length h) it]]"
  proof -
    have "h' ! be = h1 ! be" using frame be_e1 by simp
    also have "\<dots> = link (h ! be) (entry off it)" using be by (simp add: h1_def nth_append)
    finally show ?thesis using Cons.prems(2) by (simp add: link_plain off_def)
  qed
  moreover have "chain h' (length h) (it # rest) False"
  proof -
    have a: "off + width it \<le> length h'" using len len1 by simp
    have b: "\<forall>j < width it - 1. h' ! (off + j) = frag_states off it ! j"
    proof (intro allI impI)
      fix j assume j: "j < width it - 1"
      then have "h' ! (off + j) = h1 ! (off + j)" using frame e1' by simp
      also have "\<dots> = frag_states off it ! j" by (simp add: h1_def off_def nth_append)
      finally show "h' ! (off + j) = frag_states off it ! j" .
    qed
    have c: "h' ! exit off it =
        (case rest of
           [] \<Rightarrow> \<lparr>name = None, transitions = Map.empty, is_final = False\<rparr>
         | it' # _ \<Rightarrow> plain_state [None \<mapsto> [entry (off + width it) it']])"
      using nxt h1e1 len1 by (cases rest) (simp_all add: e1_def plain_state_def)
    show ?thesis using a b c ch len1 unfolding off_def by simp
  qed
  ultimately show ?case using be' bare by simp
qed


lemma chain_finalize:
  "chain H off items False \<Longrightarrow> items \<noteq> [] \<Longrightarrow>
   length H = off + sum_list (map width items) \<Longrightarrow>
   chain (H[length H - 1 := (H ! (length H - 1))\<lparr>is_final := True\<rparr>]) off items True"
proof (induction items arbitrary: off)
  case Nil
  then show ?case by simp
next
  case (Cons it rest)
  let ?H' = "H[length H - 1 := (H ! (length H - 1))\<lparr>is_final := True\<rparr>]"
  have w: "2 \<le> width it" by (rule width_ge2)
  have ex: "exit off it = off + width it - 1" using exit_width [of off it] by simp
  have local: "\<forall>j < width it - 1. ?H' ! (off + j) = frag_states off it ! j"
    using Cons.prems by auto
  show ?case
  proof (cases rest)
    case Nil
    with Cons.prems have "length H = off + width it" by simp
    with Cons.prems Nil local w show ?thesis by (simp add: ex)
  next
    case (Cons it' rest')
    have "2 \<le> width it'" by (rule width_ge2)
    with Cons.prems Cons have "exit off it < length H - 1" by (simp add: ex)
    moreover have "chain ?H' (off + width it) rest True"
      using Cons.IH [of "off + width it"] Cons.prems Cons by simp
    ultimately show ?thesis using Cons.prems Cons local by simp
  qed
qed

lemma build_nfa_parse_error: "parse p = Inl e \<Longrightarrow> build_nfa p = Inl e"
  by (simp add: build_nfa_def build_loop_parse)

lemma build_nfa_empty:
  "parse p = Inr [] \<Longrightarrow>
   build_nfa p = Inr \<lparr>start_state = 0,
     states = [\<lparr>name = None, transitions = Map.empty, is_final = True\<rparr>]\<rparr>"
  by (simp add: build_nfa_def build_loop_parse new_State_def)

lemma build_nfa_chain:
  assumes "parse p = Inr (it # rest)"
  shows "\<exists>fsm. build_nfa p = Inr fsm \<and> start_state fsm = entry 0 it
           \<and> chain (states fsm) 0 (it # rest) True
           \<and> length (states fsm) = sum_list (map width (it # rest))"
proof -
  define h where "h = frag_states 0 it"
  define be where "be = exit 0 it"
  have be: "Suc be = length h" by (simp add: be_def h_def exit_width)
  have be_eq: "be = width it - 1" using be by (simp add: h_def)
  have bare: "h ! be = plain_state Map.empty"
    using frag_states_exit [of 0 it] by (simp add: h_def be_eq)
  from fold_add_item_chain [OF be bare, of rest "entry 0 it"] obtain be' h' where
    fold: "fold add_item rest (Some (entry 0 it, be), h) = (Some (entry 0 it, be'), h')"
    and len: "length h' = length h + sum_list (map width rest)"
    and frame: "\<forall>i<be. h' ! i = h ! i"
    and be': "Suc be' = length h'"
    and nxt: "(case rest of [] \<Rightarrow> h' = h
               | it' # _ \<Rightarrow> h' ! be = plain_state [None \<mapsto> [entry (length h) it']])"
    and ch: "chain h' (length h) rest False"
    by blast
  have loop: "build_loop p None [] = Inr (Some (entry 0 it, be'), h')"
    using assms fold add_item_None [of it "[]"]
    by (simp add: build_loop_parse h_def be_def)
  have "h' ! exit 0 it =
        (case rest of
           [] \<Rightarrow> \<lparr>name = None, transitions = Map.empty, is_final = False\<rparr>
         | it' # _ \<Rightarrow> plain_state [None \<mapsto> [entry (width it) it']])"
    using nxt bare by (cases rest) (simp_all add: be_def [symmetric] plain_state_def h_def)
  then have ch0: "chain h' 0 (it # rest) False"
    using ch frame len by (simp add: h_def be_eq cong: list.case_cong)
  have "chain (h'[length h' - 1 := (h' ! (length h' - 1))\<lparr>is_final := True\<rparr>]) 0 (it # rest) True"
    using chain_finalize [OF ch0] len by (simp add: h_def)
  moreover have "be' = length h' - 1" using be' by simp
  ultimately show ?thesis
    using loop len by (simp add: build_nfa_def h_def)
qed



section \<open>A compiled automaton accepts the language of its pattern\<close>

lemma accepts_from_iff:
  "accepts_from H s w \<longleftrightarrow>
     (w = [] \<and> is_final (H ! s)) \<or> (\<exists>t\<in>eps_succ H s. accepts_from H t w) \<or>
     (\<exists>x w' u. w = x # w' \<and> u \<in> sym_succ H s x \<and> accepts_from H u w')"
  by (rule trans [OF accepts_from.simps]) blast

lemma accepts_from_final_state:
  assumes "s < length H" "H ! s = \<lparr>name = None, transitions = Map.empty, is_final = True\<rparr>"
  shows "accepts_from H s w \<longleftrightarrow> w = []"
proof -
  have "eps_succ H s = {}" "\<And>x. sym_succ H s x = {}" "is_final (H ! s)"
    using assms by (simp_all add: eps_succ_def sym_succ_def transitions_of_def)
  then show ?thesis by (subst accepts_from_iff) simp
qed

lemma accepts_from_eps_state:
  assumes "s < length H" "H ! s = plain_state [None \<mapsto> l]"
  shows "accepts_from H s w \<longleftrightarrow> (\<exists>q\<in>set l. accepts_from H q w)"
proof -
  have "eps_succ H s = set l" "\<And>x. sym_succ H s x = {}" "\<not> is_final (H ! s)"
    using assms by (simp_all add: eps_succ_def sym_succ_def transitions_of_def plain_state_def)
  then show ?thesis by (subst accepts_from_iff) simp
qed

lemma accepts_from_sym_state:
  assumes "s < length H" "H ! s = plain_state [Some c \<mapsto> [n]]"
  shows "accepts_from H s w \<longleftrightarrow>
           (\<exists>x w'. w = x # w' \<and> match_sym c x \<and> accepts_from H n w')"
proof -
  have "eps_succ H s = {}" "\<And>x. sym_succ H s x = (if match_sym c x then {n} else {})"
    "\<not> is_final (H ! s)"
    using assms
    by (auto simp: eps_succ_def sym_succ_def transitions_of_def plain_state_def match_sym_def)
  then show ?thesis by (subst accepts_from_iff) auto
qed

lemma star_then_unique:
  assumes "\<And>w. P w \<longleftrightarrow> Q w \<or> (\<exists>x w'. w = x # w' \<and> match_sym c x \<and> P w')"
  shows "P w \<longleftrightarrow> star_then c Q w"
proof (induction w)
  case Nil
  show ?case using assms [of "[]"] by simp
next
  case (Cons x w)
  show ?case using assms [of "x # w"] Cons by simp
qed



lemma item_accepts:
  assumes len: "off + width it \<le> length H"
    and local: "\<forall>j < width it - 1. H ! (off + j) = frag_states off it ! j"
    and after: "\<And>w. accepts_from H (exit off it) w \<longleftrightarrow> lang rest w"
  shows "accepts_from H (entry off it) w \<longleftrightarrow> lang (it # rest) w"
proof -
  obtain c rep where it: "it = (c, rep)" by (cases it)
  have s0: "H ! off = plain_state [Some c \<mapsto> [off + 1]]"
    using local [rule_format, of 0] by (simp add: it)
  have sym: "accepts_from H off v \<longleftrightarrow>
      (\<exists>x w'. v = x # w' \<and> match_sym c x \<and> accepts_from H (off + 1) w')" for v
    using len by (intro accepts_from_sym_state s0) (simp add: it split: if_splits)
  show ?thesis
  proof (cases "rep = Some CHR ''*''")
    case True
    have s1: "H ! (off + 1) = plain_state [None \<mapsto> [off, off + 3]]"
      and s2: "H ! (off + 2) = plain_state [None \<mapsto> [off, off + 3]]"
      using local [rule_format, of 1] local [rule_format, of 2] by (simp_all add: it True)
    have e1: "accepts_from H (off + 1) v \<longleftrightarrow> accepts_from H off v \<or> accepts_from H (off + 3) v"
      for v
      using len accepts_from_eps_state [OF _ s1, of v] by (simp add: it True)
    have e2: "accepts_from H (off + 2) v \<longleftrightarrow> accepts_from H off v \<or> accepts_from H (off + 3) v"
      for v
      using len accepts_from_eps_state [OF _ s2, of v] by (simp add: it True)
    have ex: "accepts_from H (off + 3) v \<longleftrightarrow> lang rest v" for v
      using after [of v] by (simp add: it True)
    have "accepts_from H (off + 1) v \<longleftrightarrow> star_then c (lang rest) v" for v
      by (rule star_then_unique) (use e1 sym ex in blast)
    then have "accepts_from H (off + 2) w \<longleftrightarrow> star_then c (lang rest) w"
      using e1 e2 by simp
    then show ?thesis by (simp add: it True)
  next
    case notstar: False
    show ?thesis
    proof (cases "rep = Some CHR ''+''")
      case True
      have s1: "H ! (off + 1) = plain_state [None \<mapsto> [off, off + 2]]"
        using local [rule_format, of 1] by (simp add: it True)
      have e1: "accepts_from H (off + 1) v \<longleftrightarrow> accepts_from H off v \<or> accepts_from H (off + 2) v"
        for v
        using len accepts_from_eps_state [OF _ s1, of v] by (simp add: it True)
      have ex: "accepts_from H (off + 2) v \<longleftrightarrow> lang rest v" for v
        using after [of v] by (simp add: it True)
      have "accepts_from H (off + 1) v \<longleftrightarrow> star_then c (lang rest) v" for v
        by (rule star_then_unique) (use e1 sym ex in blast)
      then show ?thesis using sym [of w] by (auto simp: it True split: list.splits)
    next
      case False
      have ex: "accepts_from H (off + 1) v \<longleftrightarrow> lang rest v" for v
        using after [of v] notstar False by (simp add: it)
      show ?thesis using sym [of w] ex notstar False by (auto simp: it split: list.splits)
    qed
  qed
qed

lemma chain_accepts:
  "chain H off (it # rest) True \<Longrightarrow> accepts_from H (entry off it) w \<longleftrightarrow> lang (it # rest) w"
proof (induction rest arbitrary: off it w)
  case Nil
  then have ex: "exit off it < length H" using exit_width [of off it] by simp
  have "accepts_from H (exit off it) v \<longleftrightarrow> lang [] v" for v
    using Nil accepts_from_final_state [OF ex, of v] by simp
  with Nil show ?case by (intro item_accepts) simp_all
next
  case (Cons it' rest)
  then have ex: "exit off it < length H" using exit_width [of off it] by simp
  have "accepts_from H (exit off it) v \<longleftrightarrow> lang (it' # rest) v" for v
  proof -
    have "accepts_from H (exit off it) v \<longleftrightarrow> accepts_from H (entry (off + width it) it') v"
      using Cons.prems accepts_from_eps_state [OF ex, of "[entry (off + width it) it']" v]
      by simp
    also have "\<dots> \<longleftrightarrow> lang (it' # rest) v"
      using Cons.prems by (intro Cons.IH) simp
    finally show ?thesis .
  qed
  with Cons.prems show ?case by (intro item_accepts) simp_all
qed

lemma check_string_lang:
  assumes "build_nfa p = Inr fsm"
  shows "\<exists>items. parse p = Inr items \<and> (\<forall>w. check_string fsm w \<longleftrightarrow> lang items w)"
proof (cases "parse p")
  case (Inl e)
  with assms show ?thesis by (simp add: build_nfa_parse_error)
next
  case (Inr items)
  show ?thesis
  proof (cases items)
    case Nil
    with Inr assms have "fsm = \<lparr>start_state = 0,
       states = [\<lparr>name = None, transitions = Map.empty, is_final = True\<rparr>]\<rparr>"
      by (simp add: build_nfa_empty)
    then have "check_string fsm w \<longleftrightarrow> w = []" for w
      by (simp add: check_string_accepts accepts_from_final_state)
    with Inr Nil show ?thesis by simp
  next
    case (Cons it rest)
    with Inr build_nfa_chain [of p it rest] assms
    have "start_state fsm = entry 0 it" "chain (states fsm) 0 (it # rest) True"
      by auto
    then have "check_string fsm w \<longleftrightarrow> lang (it # rest) w" for w
      using chain_accepts [of "states fsm" 0 it rest w] by (simp add: check_string_accepts)
    with Inr Cons show ?thesis by simp
  qed
qed


section \<open>Patterns of atoms only\<close>

lemma isalnum_not_special:
  "isalnum c \<Longrightarrow> c \<noteq> CHR ''*'' \<and> c \<noteq> CHR ''+'' \<and> c \<noteq> CHR ''.''"
  by (auto simp: isalnum_def)

lemma parse_atoms:
  "\<forall>c\<in>set p. isalnum c \<or> c = CHR ''.'' \<Longrightarrow> parse p = Inr (map (\<lambda>c. (c, None)) p)"
proof (induction p)
  case Nil
  show ?case by simp
next
  case (Cons c p)
  then have c: "c \<noteq> CHR ''*''" "c \<noteq> CHR ''+''" "isalnum c \<or> c = CHR ''.''"
    using isalnum_not_special [of c] by auto
  have "(case p of [] \<Rightarrow> None
         | r # _ \<Rightarrow> if r = CHR ''*'' \<or> r = CHR ''+'' then Some r else None) = None"
    using Cons.prems isalnum_not_special by (cases p) auto
  with Cons c show ?case by simp
qed

lemma lang_atoms:
  "lang (map (\<lambda>c. (c, None)) p) s \<longleftrightarrow>
     length s = length p \<and> (\<forall>i<length p. match_sym (p ! i) (s ! i))"
proof (induction p arbitrary: s)
  case Nil
  show ?case by simp
next
  case (Cons c p)
  show ?case
  proof (cases s)
    case Nil
    then show ?thesis by simp
  next
    case (Cons x s')
    show ?thesis
      unfolding Cons using Cons.IH [of s']
      by (auto simp: nth_Cons split: nat.splits)
  qed
qed

lemma build_nfa_success: "parse p = Inr items \<Longrightarrow> \<exists>fsm. build_nfa p = Inr fsm"
  using build_nfa_empty [of p] build_nfa_chain [of p] by (cases items) auto


section \<open>The demonstration pattern\<close>

lemma parse_demo:
  "parse ''a*4.+hi'' = Inr [(CHR ''a'', Some CHR ''*''), (CHR ''4'', None),
      (CHR ''.'', Some CHR ''+''), (CHR ''h'', None), (CHR ''i'', None)]"
  by (simp add: isalnum_def)


section \<open>The repetition constructions\<close>

lemma apply_star_shape:
  assumes "start F < length h" "end' F < length h"
  shows "case apply_star_to_fragment F h of (F', h') \<Rightarrow>
     start F' = length h \<and> end' F' = length h + 1 \<and> length h' = length h + 2 \<and>
     (\<forall>s key. transitions_of h' s key =
        (if key = None \<and> s = length h then Some [start F, length h + 1]
         else if key = None \<and> s = end' F then
           Some ((case transitions_of h (end' F) None of None \<Rightarrow> [] | Some l \<Rightarrow> l)
                 @ [start F, length h + 1])
         else transitions_of h s key)) \<and>
     (\<forall>s<length h'. is_final (h' ! s) \<longleftrightarrow> s < length h \<and> is_final (h ! s))"
  using assms
  by (auto simp: apply_star_to_fragment_def new_State_def add_transition_def Let_def
        transitions_of_def nth_append nth_list_update less_Suc_eq split: option.splits)

lemma apply_plus_shape:
  assumes "start F < length h" "end' F < length h"
  shows "case apply_plus_to_fragment F h of (F', h') \<Rightarrow>
     start F' = start F \<and> end' F' = length h \<and> length h' = length h + 1 \<and>
     (\<forall>s key. transitions_of h' s key =
        (if key = None \<and> s = end' F then
           Some ((case transitions_of h (end' F) None of None \<Rightarrow> [] | Some l \<Rightarrow> l)
                 @ [start F, length h])
         else transitions_of h s key)) \<and>
     (\<forall>s<length h'. is_final (h' ! s) \<longleftrightarrow> s < length h \<and> is_final (h ! s))"
  using assms
  by (auto simp: apply_plus_to_fragment_def new_State_def add_transition_def Let_def
        transitions_of_def nth_append nth_list_update less_Suc_eq split: option.splits)

lemma star_then_Nil: "star_then c (\<lambda>w. w = []) s \<longleftrightarrow> (\<forall>x\<in>set s. match_sym c x)"
  by (induction s) auto

lemma parse_star:
  "isalnum c \<or> c = CHR ''.'' \<Longrightarrow> parse [c, CHR ''*''] = Inr [(c, Some CHR ''*'')]"
  using isalnum_not_special [of c] by auto

lemma parse_plus:
  "isalnum c \<or> c = CHR ''.'' \<Longrightarrow> parse [c, CHR ''+''] = Inr [(c, Some CHR ''+'')]"
  using isalnum_not_special [of c] by auto


lemma transitions_of_Nil: "transitions_of [] s key = None"
  by (simp add: transitions_of_def)

lemma transitions_of_Cons_0: "transitions_of (x # xs) 0 key = transitions x key"
  by (simp add: transitions_of_def)

lemma transitions_of_Cons_Suc: "transitions_of (x # xs) (Suc n) key = transitions_of xs n key"
  by (simp add: transitions_of_def)

lemma transitions_of_Cons_1: "transitions_of (x # xs) 1 key = transitions_of xs 0 key"
  by (simp add: transitions_of_def)

lemma transitions_of_Cons_numeral:
  "transitions_of (x # xs) (numeral v) key = transitions_of xs (pred_numeral v) key"
  by (simp add: transitions_of_def nth_Cons_numeral)

lemmas transitions_of_eval = transitions_of_Nil transitions_of_Cons_0 transitions_of_Cons_Suc
  transitions_of_Cons_1 transitions_of_Cons_numeral


section \<open>Which patterns fail to compile\<close>

lemma first_offending_0:
  "bad_operator p 0 \<or> bad_symbol p 0 \<Longrightarrow> first_offending p i \<longleftrightarrow> i = 0"
  by (cases i) (auto simp: first_offending_def)

lemma first_offending_shift:
  assumes off: "\<And>j. (bad_operator q j \<or> bad_symbol q j) \<longleftrightarrow>
                   k \<le> j \<and> (bad_operator q' (j - k) \<or> bad_symbol q' (j - k))"
  shows "first_offending q i \<longleftrightarrow> k \<le> i \<and> first_offending q' (i - k)"
proof
  assume a: "first_offending q i"
  then have 1: "k \<le> i" "bad_operator q' (i - k) \<or> bad_symbol q' (i - k)"
    using off [of i] by (auto simp: first_offending_def)
  have "\<not> bad_operator q' j \<and> \<not> bad_symbol q' j" if "j < i - k" for j
  proof -
    have "k + j < i" using that by simp
    then have "\<not> (bad_operator q (k + j) \<or> bad_symbol q (k + j))"
      using a by (simp add: first_offending_def)
    then show ?thesis using off [of "k + j"] by simp
  qed
  with 1 show "k \<le> i \<and> first_offending q' (i - k)" by (simp add: first_offending_def)
next
  assume a: "k \<le> i \<and> first_offending q' (i - k)"
  then have 1: "bad_operator q i \<or> bad_symbol q i"
    using off [of i] by (auto simp: first_offending_def)
  have "\<not> bad_operator q j \<and> \<not> bad_symbol q j" if "j < i" for j
  proof (cases "k \<le> j")
    case True
    then have "j - k < i - k" using that by simp
    then have "\<not> (bad_operator q' (j - k) \<or> bad_symbol q' (j - k))"
      using a by (simp add: first_offending_def)
    then show ?thesis using off [of j] by simp
  next
    case False
    then show ?thesis using off [of j] by auto
  qed
  with 1 show "first_offending q i" by (simp add: first_offending_def)
qed


lemma bad_shift1:
  assumes "\<not> is_operator c" "is_atom c" "rest = [] \<or> \<not> is_operator (hd rest)"
  shows "(bad_operator (c # rest) j \<or> bad_symbol (c # rest) j) \<longleftrightarrow>
           1 \<le> j \<and> (bad_operator rest (j - 1) \<or> bad_symbol rest (j - 1))"
proof (cases j)
  case 0
  with assms show ?thesis by (simp add: bad_operator_def bad_symbol_def)
next
  case (Suc j')
  show ?thesis
  proof (cases j')
    case 0
    with Suc assms show ?thesis
      by (cases rest) (auto simp: bad_operator_def bad_symbol_def)
  next
    case (Suc j'')
    with \<open>j = Suc j'\<close> show ?thesis
      by (auto simp: bad_operator_def bad_symbol_def)
  qed
qed

lemma bad_shift2:
  assumes "\<not> is_operator c" "is_atom c" "is_operator r"
  shows "(bad_operator (c # r # rest) j \<or> bad_symbol (c # r # rest) j) \<longleftrightarrow>
           2 \<le> j \<and> (bad_operator rest (j - 2) \<or> bad_symbol rest (j - 2))"
proof (cases j)
  case 0
  with assms show ?thesis by (simp add: bad_operator_def bad_symbol_def)
next
  case (Suc j')
  show ?thesis
  proof (cases j')
    case 0
    with Suc assms show ?thesis by (simp add: bad_operator_def bad_symbol_def)
  next
    case (Suc j'')
    with \<open>j = Suc j'\<close> assms show ?thesis
      by (cases j'') (auto simp: bad_operator_def bad_symbol_def)
  qed
qed

lemma parse_result:
  "(parse q = Inl e \<longleftrightarrow> (\<exists>i. first_offending q i \<and> e = error_at q i)) \<and>
   ((\<exists>items. parse q = Inr items) \<longleftrightarrow> (\<forall>i. \<not> bad_operator q i \<and> \<not> bad_symbol q i))"
proof (induction q rule: parse.induct)
  case 1
  show ?case by (simp add: first_offending_def bad_operator_def bad_symbol_def)
next
  case (2 char rest)
  let ?q = "char # rest"
  show ?case
  proof (cases "char = CHR ''*'' \<or> char = CHR ''+''")
    case True
    then have b: "bad_operator ?q 0" by (simp add: bad_operator_def is_operator_def)
    then have "first_offending ?q i \<longleftrightarrow> i = 0" for i by (simp add: first_offending_0)
    moreover have "error_at ?q 0 = ValueError_invalid_pattern char"
      using True by (simp add: error_at_def is_operator_def)
    moreover have "parse ?q = Inl (ValueError_invalid_pattern char)" using True by simp
    ultimately show ?thesis using b by auto
  next
    case op: False
    show ?thesis
    proof (cases "isalnum char \<or> char = CHR ''.''")
      case False
      then have b: "bad_symbol ?q 0"
        using op by (simp add: bad_symbol_def is_operator_def is_atom_def)
      then have "first_offending ?q i \<longleftrightarrow> i = 0" for i by (simp add: first_offending_0)
      moreover have "error_at ?q 0 = ValueError_unsupported_symbol char"
        using op by (simp add: error_at_def is_operator_def)
      moreover have "parse ?q = Inl (ValueError_unsupported_symbol char)"
        using op False by simp
      ultimately show ?thesis using b by auto
    next
      case True
      define rep where "rep = (case rest of
                      [] \<Rightarrow> None
                    | r # _ \<Rightarrow> if r = CHR ''*'' \<or> r = CHR ''+'' then Some r else None)"
      define rest' where "rest' = (if rep = None then rest else tl rest)"
      define k :: nat where "k = (if rep = None then 1 else 2)"
      note IH = 2 [OF op True rep_def rest'_def]
      have c: "\<not> is_operator char" "is_atom char"
        using op True by (simp_all add: is_operator_def is_atom_def)
      have p: "parse ?q = (case parse rest' of Inl e \<Rightarrow> Inl e
                           | Inr items \<Rightarrow> Inr ((char, rep) # items))"
        unfolding rest'_def rep_def using op True by (simp add: Let_def)
      have shift: "(bad_operator ?q j \<or> bad_symbol ?q j) \<longleftrightarrow>
           k \<le> j \<and> (bad_operator rest' (j - k) \<or> bad_symbol rest' (j - k))" for j
      proof (cases rep)
        case None
        then have "rest = [] \<or> \<not> is_operator (hd rest)"
          by (cases rest) (auto simp: rep_def is_operator_def split: if_splits)
        from bad_shift1 [OF c this] None show ?thesis by (simp add: k_def rest'_def)
      next
        case (Some r)
        then obtain rest'' where r: "rest = r # rest''" "is_operator r"
          by (cases rest) (auto simp: rep_def is_operator_def split: if_splits)
        from bad_shift2 [OF c r(2)] Some r(1) show ?thesis by (simp add: k_def rest'_def)
      qed
      have nth: "?q ! (k + j) = rest' ! j" for j
      proof (cases rep)
        case None
        then show ?thesis by (simp add: k_def rest'_def)
      next
        case (Some r)
        then obtain rest'' where "rest = r # rest''"
          by (cases rest) (auto simp: rep_def split: if_splits)
        with Some show ?thesis by (simp add: k_def rest'_def)
      qed
      have fo: "first_offending ?q i \<longleftrightarrow> k \<le> i \<and> first_offending rest' (i - k)" for i
        by (rule first_offending_shift) (rule shift)
      have err: "error_at ?q (k + j) = error_at rest' j" for j
        by (simp only: error_at_def nth)
      have "(\<exists>i. first_offending ?q i \<and> e = error_at ?q i) \<longleftrightarrow>
            (\<exists>i. first_offending rest' i \<and> e = error_at rest' i)"
      proof
        assume "\<exists>i. first_offending ?q i \<and> e = error_at ?q i"
        then obtain i where i: "first_offending ?q i" "e = error_at ?q i" by blast
        then have "k \<le> i" "first_offending rest' (i - k)" using fo by simp_all
        moreover have "e = error_at rest' (i - k)" using err [of "i - k"] i(2) \<open>k \<le> i\<close> by simp
        ultimately show "\<exists>i. first_offending rest' i \<and> e = error_at rest' i" by blast
      next
        assume "\<exists>i. first_offending rest' i \<and> e = error_at rest' i"
        then obtain i where i: "first_offending rest' i" "e = error_at rest' i" by blast
        then have "first_offending ?q (k + i)" "e = error_at ?q (k + i)"
          using fo [of "k + i"] err [of i] by simp_all
        then show "\<exists>i. first_offending ?q i \<and> e = error_at ?q i" by blast
      qed
      moreover have "(\<forall>i. \<not> bad_operator ?q i \<and> \<not> bad_symbol ?q i) \<longleftrightarrow>
                     (\<forall>i. \<not> bad_operator rest' i \<and> \<not> bad_symbol rest' i)"
      proof
        assume a: "\<forall>i. \<not> bad_operator ?q i \<and> \<not> bad_symbol ?q i"
        show "\<forall>i. \<not> bad_operator rest' i \<and> \<not> bad_symbol rest' i"
        proof
          fix i show "\<not> bad_operator rest' i \<and> \<not> bad_symbol rest' i"
            using a shift [of "k + i"] by simp
        qed
      next
        assume a: "\<forall>i. \<not> bad_operator rest' i \<and> \<not> bad_symbol rest' i"
        show "\<forall>i. \<not> bad_operator ?q i \<and> \<not> bad_symbol ?q i"
        proof
          fix i show "\<not> bad_operator ?q i \<and> \<not> bad_symbol ?q i"
            using a shift [of i] by simp
        qed
      qed
      moreover have "parse ?q = Inl e \<longleftrightarrow> parse rest' = Inl e"
        unfolding p by (simp split: sum.splits)
      moreover have "(\<exists>items. parse ?q = Inr items) \<longleftrightarrow> (\<exists>items. parse rest' = Inr items)"
        unfolding p by (simp split: sum.splits)
      ultimately show ?thesis using IH by simp
    qed
  qed
qed


lemma build_nfa_Inl_iff: "build_nfa p = Inl e \<longleftrightarrow> parse p = Inl e"
proof (cases "parse p")
  case (Inl e')
  then show ?thesis by (simp add: build_nfa_parse_error)
next
  case (Inr items)
  then show ?thesis using build_nfa_success [OF Inr] by auto
qed

lemma build_nfa_Inr_iff: "(\<exists>fsm. build_nfa p = Inr fsm) \<longleftrightarrow> (\<exists>items. parse p = Inr items)"
proof (cases "parse p")
  case (Inl e')
  then show ?thesis by (simp add: build_nfa_parse_error)
next
  case (Inr items)
  then show ?thesis using build_nfa_success [OF Inr] by auto
qed


section \<open>Compiled arenas are well formed\<close>



lemma is_final_link [simp]: "is_final (link st m) = is_final st"
  by (simp add: link_def)
















lemma set_check_loop_cong:
  "set cur = set cur' \<Longrightarrow> set (check_loop h cur w) = set (check_loop h cur' w)"
proof (induction w arbitrary: cur cur')
  case Nil
  then show ?case by simp
next
  case (Cons x w)
  have "set (epsilon_closure h (next_states h cur x)) =
        set (epsilon_closure h (next_states h cur' x))"
    using Cons.prems by (simp add: epsilon_closure_reach set_next_states)
  from Cons.IH [OF this] show ?case by simp
qed

section \<open>The matcher hands the store on unchanged\<close>

lemma epsilon_loop_st_eq:
  "epsilon_loop_st stack closure \<sigma> = (epsilon_loop (states \<sigma>) stack closure, \<sigma>)"
proof (induction stack closure \<sigma> rule: epsilon_loop_st.induct)
  case (1 closure \<sigma>)
  show ?case by simp
next
  case (2 state stack closure \<sigma>)
  show ?case
  proof (cases "transitions_of (states \<sigma>) state None")
    case None
    with 2(1) [of "(None, \<sigma>)" None \<sigma>] show ?thesis by (simp add: get_transitions_def)
  next
    case (Some nxts)
    obtain stack' closure' where p: "push_unvisited nxts (stack, closure) = (stack', closure')"
      by (cases "push_unvisited nxts (stack, closure)")
    with 2(2) [of "(Some nxts, \<sigma>)" "Some nxts" \<sigma> nxts "(stack', closure')" stack' closure'] Some
    show ?thesis by (simp add: get_transitions_def)
  qed
qed

lemma epsilon_closure_st_eq:
  "epsilon_closure_st sts \<sigma> = (epsilon_closure (states \<sigma>) sts, \<sigma>)"
  by (simp add: epsilon_closure_st_def epsilon_closure_def epsilon_loop_st_eq)

lemma next_states_st_eq:
  "next_states_st cur char ns \<sigma> =
     (fold (\<lambda>state ns.
             (let ns1 = (case transitions_of (states \<sigma>) state (Some char) of
                           Some l \<Rightarrow> List.union l ns | None \<Rightarrow> ns)
              in case transitions_of (states \<sigma>) state (Some CHR ''.'') of
                   Some l \<Rightarrow> List.union l ns1 | None \<Rightarrow> ns1)) cur ns, \<sigma>)"
  by (induction cur arbitrary: ns) (simp_all add: get_transitions_def Let_def)

lemma check_loop_st_eq:
  "check_loop_st cur w \<sigma> = (check_loop (states \<sigma>) cur w, \<sigma>)"
  by (induction w arbitrary: cur)
     (simp_all add: next_states_st_eq epsilon_closure_st_eq next_states_def)

lemma any_final_st_eq:
  "any_final_st cur \<sigma> = (list_ex (\<lambda>state. is_final (states \<sigma> ! state)) cur, \<sigma>)"
  by (induction cur) (simp_all add: get_is_final_def)

lemma check_string_st_eq: "check_string_st input_str \<sigma> = (check_string \<sigma> input_str, \<sigma>)"
  by (simp add: check_string_st_def check_string_def get_start_state_def
        epsilon_closure_st_eq check_loop_st_eq any_final_st_eq)



section \<open>The claims\<close>

text \<open>
  C7.  For every list of states \<open>S\<close> of every arena, hence of every compiled automaton,
  \<^verbatim>\<open>epsilon_closure(S)\<close> returns (the function is total: its loop was shown to terminate
  on every arena, cyclic epsilon graphs included) exactly the states reachable from some
  state of \<open>S\<close> by zero or more epsilon transitions; the states of \<open>S\<close> are among them.
\<close>

theorem epsilon_closure_reachable:
  "set (epsilon_closure h S) = {t. \<exists>s\<in>set S. (s, t) \<in> (eps_rel h)\<^sup>*}
   \<and> set S \<subseteq> set (epsilon_closure h S)"
  by (auto simp: epsilon_closure_reach)

text \<open>
  C10.  The closure is idempotent: closing a closed set of states adds no state.
\<close>

theorem epsilon_closure_idempotent:
  "set (epsilon_closure h (epsilon_closure h S)) = set (epsilon_closure h S)"
  by (auto simp: epsilon_closure_reach intro: rtrancl_trans)

text \<open>
  C1.  A pattern of atoms only (alphanumeric literals and the wildcard \<^verbatim>\<open>.\<close>, no
  repetition operator) compiles, and \<^verbatim>\<open>check_string\<close> returns true exactly for the
  strings of the length of the pattern whose every character equals the pattern
  character at its position or stands at a wildcard position.  The pattern \<^verbatim>\<open>.\<close>
  matches exactly the strings of length 1 and the empty pattern exactly the empty string.
\<close>

theorem atoms_only_match:
  assumes "\<forall>c\<in>set p. isalnum c \<or> c = CHR ''.''"
  shows "\<exists>fsm. build_nfa p = Inr fsm \<and>
           (\<forall>s. check_string fsm s \<longleftrightarrow>
                  length s = length p \<and>
                  (\<forall>i<length p. s ! i = p ! i \<or> p ! i = CHR ''.''))"
proof -
  have p: "parse p = Inr (map (\<lambda>c. (c, None)) p)" using assms by (rule parse_atoms)
  then obtain fsm where fsm: "build_nfa p = Inr fsm" using build_nfa_success by blast
  from check_string_lang [OF fsm] p
  have "check_string fsm s \<longleftrightarrow> lang (map (\<lambda>c. (c, None)) p) s" for s by simp
  then show ?thesis using fsm by (auto simp: lang_atoms match_sym_def)
qed

theorem atoms_only_match_witness:
  "list_all (\<lambda>c. isalnum c \<or> c = CHR ''.'') ''a.c'' \<and>
   (\<exists>fsm. build_nfa ''a.c'' = Inr fsm \<and> check_string fsm ''axc'' \<and> \<not> check_string fsm ''abcd''
      \<and> \<not> check_string fsm ''bxc'') \<and>
   (\<exists>fsm. build_nfa ''.'' = Inr fsm \<and> (\<forall>s. check_string fsm s \<longleftrightarrow> length s = 1)) \<and>
   (\<exists>fsm. build_nfa [] = Inr fsm \<and> (\<forall>s. check_string fsm s \<longleftrightarrow> s = []))"
proof -
  have 1: "\<forall>c\<in>set ''a.c''. isalnum c \<or> c = CHR ''.''" by (simp add: isalnum_def)
  have 2: "\<forall>c\<in>set ''.''. isalnum c \<or> c = CHR ''.''" by simp
  have 3: "\<forall>c\<in>set ''''. isalnum c \<or> c = CHR ''.''" by simp
  show ?thesis
    using 1 atoms_only_match [OF 1] atoms_only_match [OF 2] atoms_only_match [OF 3]
    by (auto simp: nth_Cons list_all_iff split: nat.splits)
qed


text \<open>
  C2.  The pattern \<^verbatim>\<open>a*4.+hi\<close> compiles, and the compiled automaton matches
  \<^verbatim>\<open>aaaaaa4uhi\<close> and \<^verbatim>\<open>4uhi\<close> and matches neither \<^verbatim>\<open>meow\<close> nor \<^verbatim>\<open>4hi\<close>.
\<close>

theorem demo_pattern_matches:
  "\<exists>fsm. build_nfa ''a*4.+hi'' = Inr fsm \<and>
     check_string fsm ''aaaaaa4uhi'' \<and> check_string fsm ''4uhi'' \<and>
     \<not> check_string fsm ''meow'' \<and> \<not> check_string fsm ''4hi''"
proof -
  obtain fsm where fsm: "build_nfa ''a*4.+hi'' = Inr fsm"
    using build_nfa_success [OF parse_demo] by blast
  from check_string_lang [OF fsm] parse_demo
  have l: "check_string fsm w \<longleftrightarrow> lang [(CHR ''a'', Some CHR ''*''), (CHR ''4'', None),
      (CHR ''.'', Some CHR ''+''), (CHR ''h'', None), (CHR ''i'', None)] w" for w
    by simp
  have "check_string fsm ''aaaaaa4uhi''" unfolding l by (simp add: match_sym_def)
  moreover have "check_string fsm ''4uhi''" unfolding l by (simp add: match_sym_def)
  moreover have "\<not> check_string fsm ''meow''" unfolding l by (simp add: match_sym_def)
  moreover have "\<not> check_string fsm ''4hi''" unfolding l by (simp add: match_sym_def)
  ultimately show ?thesis using fsm by blast
qed


text \<open>
  C3.  The star construction on a fragment \<open>F\<close> allocates two fresh states, the new
  start and the new end, and adds exactly four epsilon transitions: new start to
  \<open>F.start\<close>, new start to new end, \<open>F.end\<close> to \<open>F.start\<close> and \<open>F.end\<close> to new end;
  every other transition and every final flag is as before.  The pattern of one atom
  followed by \<^verbatim>\<open>*\<close> compiles and matches exactly the strings all of whose characters
  the atom matches, the empty string among them.
\<close>

theorem star_construction:
  "(start F < length h \<and> end' F < length h \<longrightarrow>
     (case apply_star_to_fragment F h of (F', h') \<Rightarrow>
        start F' = length h \<and> end' F' = length h + 1 \<and> length h' = length h + 2 \<and>
        (\<forall>s key. transitions_of h' s key =
           (if key = None \<and> s = length h then Some [start F, length h + 1]
            else if key = None \<and> s = end' F then
              Some ((case transitions_of h (end' F) None of None \<Rightarrow> [] | Some l \<Rightarrow> l)
                    @ [start F, length h + 1])
            else transitions_of h s key)) \<and>
        (\<forall>s<length h'. is_final (h' ! s) \<longleftrightarrow> s < length h \<and> is_final (h ! s)))) \<and>
   (isalnum c \<or> c = CHR ''.'' \<longrightarrow>
     (\<exists>fsm. build_nfa [c, CHR ''*''] = Inr fsm \<and>
        (\<forall>s. check_string fsm s \<longleftrightarrow> (\<forall>x\<in>set s. x = c \<or> c = CHR ''.''))))"
proof (intro conjI impI)
  assume a: "start F < length h \<and> end' F < length h"
  show "case apply_star_to_fragment F h of (F', h') \<Rightarrow>
        start F' = length h \<and> end' F' = length h + 1 \<and> length h' = length h + 2 \<and>
        (\<forall>s key. transitions_of h' s key =
           (if key = None \<and> s = length h then Some [start F, length h + 1]
            else if key = None \<and> s = end' F then
              Some ((case transitions_of h (end' F) None of None \<Rightarrow> [] | Some l \<Rightarrow> l)
                    @ [start F, length h + 1])
            else transitions_of h s key)) \<and>
        (\<forall>s<length h'. is_final (h' ! s) \<longleftrightarrow> s < length h \<and> is_final (h ! s))"
    by (rule apply_star_shape) (use a in simp_all)
next
  assume c: "isalnum c \<or> c = CHR ''.''"
  note p = parse_star [OF c]
  obtain fsm where fsm: "build_nfa [c, CHR ''*''] = Inr fsm"
    using build_nfa_success [OF p] by blast
  from check_string_lang [OF fsm] p
  have "check_string fsm s \<longleftrightarrow> (\<forall>x\<in>set s. match_sym c x)" for s
    by (simp add: star_then_Nil)
  then show "\<exists>fsm. build_nfa [c, CHR ''*''] = Inr fsm \<and>
        (\<forall>s. check_string fsm s \<longleftrightarrow> (\<forall>x\<in>set s. x = c \<or> c = CHR ''.''))"
    using fsm by (auto simp: match_sym_def)
qed

theorem star_construction_witness:
  "(start \<lparr>start = 0, end' = 1\<rparr> < length (snd (build_fragment_for_symbol CHR ''a'' [])) \<and>
    end' \<lparr>start = 0, end' = 1\<rparr> < length (snd (build_fragment_for_symbol CHR ''a'' []))) \<and>
   (case apply_star_to_fragment \<lparr>start = 0, end' = 1\<rparr>
           (snd (build_fragment_for_symbol CHR ''a'' [])) of
      (F', h') \<Rightarrow> start F' = 2 \<and> end' F' = 3 \<and> length h' = 4 \<and>
         transitions_of h' 2 None = Some [0, 3] \<and> transitions_of h' 1 None = Some [0, 3] \<and>
         transitions_of h' 0 None = None \<and> transitions_of h' 3 None = None \<and>
         transitions_of h' 0 (Some CHR ''a'') = Some [1]) \<and>
   (isalnum CHR ''a'' \<or> CHR ''a'' = CHR ''.'') \<and>
   (\<exists>fsm. build_nfa ''a*'' = Inr fsm \<and> check_string fsm [] \<and> check_string fsm ''aaa''
      \<and> \<not> check_string fsm ''ab'')"
proof -
  let ?h = "snd (build_fragment_for_symbol CHR ''a'' [])"
  let ?F = "\<lparr>start = 0, end' = 1\<rparr>"
  have h: "?h = [plain_state [Some CHR ''a'' \<mapsto> [1]], plain_state Map.empty]"
    by (simp add: frag_defs)
  have 1: "start ?F < length ?h \<and> end' ?F < length ?h" by (simp add: h)
  have 2: "isalnum CHR ''a'' \<or> CHR ''a'' = CHR ''.''" by (simp add: isalnum_def)
  note t = star_construction [of ?F ?h "CHR ''a''"]
  note a = t [THEN conjunct1, THEN mp, OF 1]
  note b = t [THEN conjunct2, THEN mp, OF 2]
  obtain F' h' where r: "apply_star_to_fragment ?F ?h = (F', h')"
    by (cases "apply_star_to_fragment ?F ?h")
  from a have a1: "start F' = 2" "end' F' = 3" "length h' = 4"
    and a2: "\<And>s key. transitions_of h' s key =
           (if key = None \<and> s = length ?h then Some [start ?F, length ?h + 1]
            else if key = None \<and> s = end' ?F then
              Some ((case transitions_of ?h (end' ?F) None of None \<Rightarrow> [] | Some l \<Rightarrow> l)
                    @ [start ?F, length ?h + 1])
            else transitions_of ?h s key)"
    unfolding r by (simp_all add: h)
  have "transitions_of h' 2 None = Some [0, 3]" "transitions_of h' 1 None = Some [0, 3]"
    "transitions_of h' 0 None = None" "transitions_of h' 3 None = None"
    "transitions_of h' 0 (Some CHR ''a'') = Some [1]"
    unfolding a2 by (simp_all add: h transitions_of_eval plain_state_def)
  with a1 have "case apply_star_to_fragment ?F ?h of
      (F', h') \<Rightarrow> start F' = 2 \<and> end' F' = 3 \<and> length h' = 4 \<and>
         transitions_of h' 2 None = Some [0, 3] \<and> transitions_of h' 1 None = Some [0, 3] \<and>
         transitions_of h' 0 None = None \<and> transitions_of h' 3 None = None \<and>
         transitions_of h' 0 (Some CHR ''a'') = Some [1]"
    unfolding r by simp
  moreover from b have "\<exists>fsm. build_nfa ''a*'' = Inr fsm \<and> check_string fsm [] \<and>
      check_string fsm ''aaa'' \<and> \<not> check_string fsm ''ab''"
    by auto
  ultimately show ?thesis using 1 2 by blast
qed



text \<open>
  C4.  The plus construction on a fragment \<open>F\<close> allocates one fresh state, the new end,
  keeps \<open>F.start\<close> as the entry and adds exactly the two epsilon transitions from
  \<open>F.end\<close> to \<open>F.start\<close> and to the new end: there is no path that skips the atom.  The
  pattern of one atom followed by \<^verbatim>\<open>+\<close> compiles and matches exactly the non-empty
  strings all of whose characters the atom matches.
\<close>

theorem plus_construction:
  "(start F < length h \<and> end' F < length h \<longrightarrow>
     (case apply_plus_to_fragment F h of (F', h') \<Rightarrow>
        start F' = start F \<and> end' F' = length h \<and> length h' = length h + 1 \<and>
        (\<forall>s key. transitions_of h' s key =
           (if key = None \<and> s = end' F then
              Some ((case transitions_of h (end' F) None of None \<Rightarrow> [] | Some l \<Rightarrow> l)
                    @ [start F, length h])
            else transitions_of h s key)) \<and>
        (\<forall>s<length h'. is_final (h' ! s) \<longleftrightarrow> s < length h \<and> is_final (h ! s)))) \<and>
   (isalnum c \<or> c = CHR ''.'' \<longrightarrow>
     (\<exists>fsm. build_nfa [c, CHR ''+''] = Inr fsm \<and>
        (\<forall>s. check_string fsm s \<longleftrightarrow> s \<noteq> [] \<and> (\<forall>x\<in>set s. x = c \<or> c = CHR ''.''))))"
proof (intro conjI impI)
  assume a: "start F < length h \<and> end' F < length h"
  show "case apply_plus_to_fragment F h of (F', h') \<Rightarrow>
        start F' = start F \<and> end' F' = length h \<and> length h' = length h + 1 \<and>
        (\<forall>s key. transitions_of h' s key =
           (if key = None \<and> s = end' F then
              Some ((case transitions_of h (end' F) None of None \<Rightarrow> [] | Some l \<Rightarrow> l)
                    @ [start F, length h])
            else transitions_of h s key)) \<and>
        (\<forall>s<length h'. is_final (h' ! s) \<longleftrightarrow> s < length h \<and> is_final (h ! s))"
    by (rule apply_plus_shape) (use a in simp_all)
next
  assume c: "isalnum c \<or> c = CHR ''.''"
  note p = parse_plus [OF c]
  obtain fsm where fsm: "build_nfa [c, CHR ''+''] = Inr fsm"
    using build_nfa_success [OF p] by blast
  from check_string_lang [OF fsm] p
  have "check_string fsm s \<longleftrightarrow> s \<noteq> [] \<and> (\<forall>x\<in>set s. match_sym c x)" for s
    by (cases s) (simp_all add: star_then_Nil)
  then show "\<exists>fsm. build_nfa [c, CHR ''+''] = Inr fsm \<and>
        (\<forall>s. check_string fsm s \<longleftrightarrow> s \<noteq> [] \<and> (\<forall>x\<in>set s. x = c \<or> c = CHR ''.''))"
    using fsm by (auto simp: match_sym_def)
qed

theorem plus_construction_witness:
  "(start \<lparr>start = 0, end' = 1\<rparr> < length (snd (build_fragment_for_symbol CHR ''a'' [])) \<and>
    end' \<lparr>start = 0, end' = 1\<rparr> < length (snd (build_fragment_for_symbol CHR ''a'' []))) \<and>
   (case apply_plus_to_fragment \<lparr>start = 0, end' = 1\<rparr>
           (snd (build_fragment_for_symbol CHR ''a'' [])) of
      (F', h') \<Rightarrow> start F' = 0 \<and> end' F' = 2 \<and> length h' = 3 \<and>
         transitions_of h' 1 None = Some [0, 2] \<and>
         transitions_of h' 0 None = None \<and> transitions_of h' 2 None = None \<and>
         transitions_of h' 0 (Some CHR ''a'') = Some [1]) \<and>
   (isalnum CHR ''a'' \<or> CHR ''a'' = CHR ''.'') \<and>
   (\<exists>fsm. build_nfa ''a+'' = Inr fsm \<and> \<not> check_string fsm [] \<and> check_string fsm ''a''
      \<and> check_string fsm ''aa'' \<and> check_string fsm ''aaaaa'' \<and> \<not> check_string fsm ''ab'')"
proof -
  let ?h = "snd (build_fragment_for_symbol CHR ''a'' [])"
  let ?F = "\<lparr>start = 0, end' = 1\<rparr>"
  have h: "?h = [plain_state [Some CHR ''a'' \<mapsto> [1]], plain_state Map.empty]"
    by (simp add: frag_defs)
  have 1: "start ?F < length ?h \<and> end' ?F < length ?h" by (simp add: h)
  have 2: "isalnum CHR ''a'' \<or> CHR ''a'' = CHR ''.''" by (simp add: isalnum_def)
  note t = plus_construction [of ?F ?h "CHR ''a''"]
  note a = t [THEN conjunct1, THEN mp, OF 1]
  note b = t [THEN conjunct2, THEN mp, OF 2]
  obtain F' h' where r: "apply_plus_to_fragment ?F ?h = (F', h')"
    by (cases "apply_plus_to_fragment ?F ?h")
  from a have a1: "start F' = 0" "end' F' = 2" "length h' = 3"
    and a2: "\<And>s key. transitions_of h' s key =
           (if key = None \<and> s = end' ?F then
              Some ((case transitions_of ?h (end' ?F) None of None \<Rightarrow> [] | Some l \<Rightarrow> l)
                    @ [start ?F, length ?h])
            else transitions_of ?h s key)"
    unfolding r by (simp_all add: h)
  have "transitions_of h' 1 None = Some [0, 2]"
    "transitions_of h' 0 None = None" "transitions_of h' 2 None = None"
    "transitions_of h' 0 (Some CHR ''a'') = Some [1]"
    unfolding a2 by (simp_all add: h transitions_of_eval plain_state_def)
  with a1 have "case apply_plus_to_fragment ?F ?h of
      (F', h') \<Rightarrow> start F' = 0 \<and> end' F' = 2 \<and> length h' = 3 \<and>
         transitions_of h' 1 None = Some [0, 2] \<and>
         transitions_of h' 0 None = None \<and> transitions_of h' 2 None = None \<and>
         transitions_of h' 0 (Some CHR ''a'') = Some [1]"
    unfolding r by simp
  moreover from b have "\<exists>fsm. build_nfa ''a+'' = Inr fsm \<and> \<not> check_string fsm [] \<and>
      check_string fsm ''a'' \<and> check_string fsm ''aa'' \<and> check_string fsm ''aaaaa'' \<and>
      \<not> check_string fsm ''ab''"
    by auto
  ultimately show ?thesis using 1 2 by blast
qed


text \<open>
  C5, as stated, fails: the pattern \<^verbatim>\<open>*#\<close> holds an unsupported character, yet its
  compilation fails with the error of a misplaced operator, and the pattern \<^verbatim>\<open>#**\<close>
  holds two consecutive operators, yet its compilation fails with the error of an
  unsupported symbol.
\<close>

theorem compile_errors_counterexample:
  "bad_symbol ''*#'' 1 \<and>
   build_nfa ''*#'' = Inl (ValueError_invalid_pattern CHR ''*'') \<and>
   bad_operator ''#**'' 2 \<and>
   build_nfa ''#**'' = Inl (ValueError_unsupported_symbol CHR ''#'')"
  by (simp add: build_nfa_Inl_iff bad_symbol_def bad_operator_def is_atom_def is_operator_def
        isalnum_def)


text \<open>
  C5, amended.  Compilation fails exactly when the pattern has an offending position,
  and the leftmost one decides the error: the error of an invalid pattern for a
  repetition operator at the start of the pattern or directly after another operator,
  the error of an unsupported symbol for a character that is neither alphanumeric nor
  \<^verbatim>\<open>.\<close>, \<^verbatim>\<open>*\<close> or \<^verbatim>\<open>+\<close>.  The two errors are different values (both are a
  \<^verbatim>\<open>ValueError\<close>, told apart by the message).  Every pattern without an offending
  position compiles to an automaton.
\<close>

theorem compile_errors:
  "(build_nfa p = Inl e \<longleftrightarrow> (\<exists>i. first_offending p i \<and> e = error_at p i)) \<and>
   ((\<exists>fsm. build_nfa p = Inr fsm) \<longleftrightarrow> (\<forall>i. \<not> bad_operator p i \<and> \<not> bad_symbol p i)) \<and>
   ValueError_invalid_pattern c \<noteq> ValueError_unsupported_symbol c'"
  using parse_result [of p e] by (simp add: build_nfa_Inl_iff build_nfa_Inr_iff)

theorem compile_errors_witness:
  "first_offending ''a*+b'' 2 \<and>
   build_nfa ''a*+b'' = Inl (ValueError_invalid_pattern CHR ''+'') \<and>
   first_offending ''ab#*'' 2 \<and>
   build_nfa ''ab#*'' = Inl (ValueError_unsupported_symbol CHR ''#'') \<and>
   first_offending ''*#'' 0 \<and>
   build_nfa ''*#'' = Inl (ValueError_invalid_pattern CHR ''*'') \<and>
   (\<exists>fsm. build_nfa ''a*b+.'' = Inr fsm)"
proof -
  have 1: "first_offending ''a*+b'' 2"
    by (simp add: first_offending_def bad_symbol_def bad_operator_def is_atom_def
          is_operator_def isalnum_def eval_nat_numeral less_Suc_eq)
  have 2: "first_offending ''ab#*'' 2"
    by (simp add: first_offending_def bad_symbol_def bad_operator_def is_atom_def
          is_operator_def isalnum_def eval_nat_numeral less_Suc_eq)
  have 3: "first_offending ''*#'' 0"
    by (simp add: first_offending_def bad_symbol_def bad_operator_def is_atom_def
          is_operator_def isalnum_def)
  have 4: "\<not> bad_operator ''a*b+.'' i \<and> \<not> bad_symbol ''a*b+.'' i" for i
  proof (cases "i < 5")
    case True
    then consider "i = 0" | "i = 1" | "i = 2" | "i = 3" | "i = 4" by linarith
    then show ?thesis
      by cases
         (simp_all add: bad_symbol_def bad_operator_def is_atom_def is_operator_def isalnum_def)
  next
    case False
    then show ?thesis by (simp add: bad_symbol_def bad_operator_def)
  qed
  have "build_nfa ''a*+b'' = Inl (error_at ''a*+b'' 2)"
    using compile_errors [of "''a*+b''" "error_at ''a*+b'' 2"] 1 by blast
  moreover have "build_nfa ''ab#*'' = Inl (error_at ''ab#*'' 2)"
    using compile_errors [of "''ab#*''" "error_at ''ab#*'' 2"] 2 by blast
  moreover have "build_nfa ''*#'' = Inl (error_at ''*#'' 0)"
    using compile_errors [of "''*#''" "error_at ''*#'' 0"] 3 by blast
  moreover have "\<exists>fsm. build_nfa ''a*b+.'' = Inr fsm"
    using compile_errors [of "''a*b+.''"] 4 by blast
  ultimately show ?thesis
    using 1 2 3 by (simp add: error_at_def is_operator_def)
qed





text \<open>
  C8.  Matching is pure and deterministic.  With the store threaded through the
  matcher, two calls of \<^verbatim>\<open>check_string\<close> in a row on the same automaton and the same
  input return the same result, and the automaton after each call is the automaton
  before it: its start state, all its transition tables and all its final flags.  The
  same holds of a call of \<^verbatim>\<open>epsilon_closure\<close>.  The result is acceptance in the state
  graph, and neither the closure, nor the step on a character, nor the verdict depends
  on the order in which a working set is enumerated or on repetitions in it, which is
  all that Python leaves open about a set.
\<close>

theorem check_string_deterministic:
  "(case check_string_st input_str fsm of (r1, fsm1) \<Rightarrow>
      case check_string_st input_str fsm1 of (r2, fsm2) \<Rightarrow>
        r1 = r2 \<and> fsm1 = fsm \<and> fsm2 = fsm \<and> r1 = check_string fsm input_str) \<and>
   (case epsilon_closure_st sts fsm of (c, fsm1) \<Rightarrow>
      fsm1 = fsm \<and> c = epsilon_closure (states fsm) sts) \<and>
   (check_string fsm input_str \<longleftrightarrow>
      accepts_from (states fsm) (start_state fsm) input_str) \<and>
   (set cur = set cur' \<longrightarrow>
      set (epsilon_closure h cur) = set (epsilon_closure h cur') \<and>
      set (next_states h cur x) = set (next_states h cur' x) \<and>
      (list_ex (\<lambda>state. is_final (h ! state)) (check_loop h cur w) \<longleftrightarrow>
       list_ex (\<lambda>state. is_final (h ! state)) (check_loop h cur' w)))"
  using set_check_loop_cong [of cur cur' h w]
  by (simp add: check_string_st_eq epsilon_closure_st_eq check_string_accepts list_ex_iff
        epsilon_closure_reach set_next_states)

theorem check_string_deterministic_witness:
  "\<exists>fsm. build_nfa ''a'' = Inr fsm \<and>
     (case check_string_st ''a'' fsm of (r1, fsm1) \<Rightarrow>
        case check_string_st ''a'' fsm1 of (r2, fsm2) \<Rightarrow>
          r1 \<and> r2 \<and> fsm1 = fsm \<and> fsm2 = fsm) \<and>
     (case check_string_st ''b'' fsm of (r1, fsm1) \<Rightarrow>
        case check_string_st ''b'' fsm1 of (r2, fsm2) \<Rightarrow>
          \<not> r1 \<and> \<not> r2 \<and> fsm1 = fsm \<and> fsm2 = fsm) \<and>
     set [0, 1] = set [1, 0, 0 :: nat] \<and>
     (list_ex (\<lambda>state. is_final (states fsm ! state)) (check_loop (states fsm) [0, 1] ''a'') \<longleftrightarrow>
      list_ex (\<lambda>state. is_final (states fsm ! state)) (check_loop (states fsm) [1, 0, 0] ''a''))"
proof -
  have p: "parse ''a'' = Inr [(CHR ''a'', None)]" by (simp add: isalnum_def)
  then obtain fsm where fsm: "build_nfa ''a'' = Inr fsm" using build_nfa_success by blast
  from check_string_lang [OF fsm] p
  have l: "check_string fsm w \<longleftrightarrow> lang [(CHR ''a'', None)] w" for w by simp
  have a: "check_string fsm ''a''" and b: "\<not> check_string fsm ''b''"
    unfolding l by (simp_all add: match_sym_def)
  have s: "set [0, 1] = set [1, 0, 0 :: nat]" by auto
  note t1 = check_string_deterministic [where input_str = "''a''" and fsm = fsm,
      THEN conjunct1]
  note t2 = check_string_deterministic [where input_str = "''b''" and fsm = fsm,
      THEN conjunct1]
  note t3 = check_string_deterministic [where cur = "[0, 1]" and cur' = "[1, 0, 0]"
      and h = "states fsm" and w = "''a''",
      THEN conjunct2, THEN conjunct2, THEN conjunct2, THEN mp, OF s]
  have 1: "case check_string_st ''a'' fsm of (r1, fsm1) \<Rightarrow>
        case check_string_st ''a'' fsm1 of (r2, fsm2) \<Rightarrow>
          r1 \<and> r2 \<and> fsm1 = fsm \<and> fsm2 = fsm"
    using t1 a by (auto split: prod.splits)
  have 2: "case check_string_st ''b'' fsm of (r1, fsm1) \<Rightarrow>
        case check_string_st ''b'' fsm1 of (r2, fsm2) \<Rightarrow>
          \<not> r1 \<and> \<not> r2 \<and> fsm1 = fsm \<and> fsm2 = fsm"
    using t2 b by (auto split: prod.splits)
  note t4 = t3 [THEN conjunct2, THEN conjunct2]
  show ?thesis
    by (rule exI [of _ fsm]) (intro conjI fsm 1 2 s t4)
qed





end
